theory Spec2Isabelle
  imports Main "HOL-Library.AList" "HOL-Library.Product_Lexorder"
begin

section \<open>The netlist IR as the front end sees it\<close>

text \<open>
  The front end builds on the netlist library's value types: a four-valued bit state
  (plus two marker states), a signal bit that is either such a constant or one bit of a
  wire, and a signal as the list of its bits, least significant first. Wires are
  identified by the index of their interned name, which is also what orders them.
\<close>

datatype State = S0 | S1 | Sx | Sz | Sa | Sm

datatype SigBit = Bit State | WireBit nat nat

type_synonym SigSpec = "SigBit list"

type_synonym Const = "State list"

fun is_const_bit :: "SigBit \<Rightarrow> bool" where
  "is_const_bit (Bit s) = True"
| "is_const_bit (WireBit w i) = False"

definition is_fully_const :: "SigSpec \<Rightarrow> bool" where
  "is_fully_const sig = list_all is_const_bit sig"

definition is_fully_ones :: "SigSpec \<Rightarrow> bool" where
  "is_fully_ones sig = list_all (\<lambda>b. b = Bit S1) sig"

definition is_fully_zero :: "SigSpec \<Rightarrow> bool" where
  "is_fully_zero sig = list_all (\<lambda>b. b = Bit S0) sig"

definition is_fully_def :: "SigSpec \<Rightarrow> bool" where
  "is_fully_def sig = list_all (\<lambda>b. b = Bit S0 \<or> b = Bit S1) sig"

text \<open>\<open>as_const\<close> is only called on signals that passed \<open>is_fully_const\<close>.\<close>

fun bit_data :: "SigBit \<Rightarrow> State" where
  "bit_data (Bit s) = s"
| "bit_data (WireBit w i) = Sx"

definition as_const :: "SigSpec \<Rightarrow> Const" where
  "as_const sig = map bit_data sig"

definition extend_u0 :: "SigSpec \<Rightarrow> nat \<Rightarrow> bool \<Rightarrow> SigSpec" where
  "extend_u0 sig width is_signed =
     (if length sig > width then take width sig
      else if length sig < width then
        sig @ replicate (width - length sig)
                (if \<not> is_signed then Bit S0 else if sig \<noteq> [] then last sig else Bit Sx)
      else sig)"

subsection \<open>Modules, wires, cells and processes\<close>

text \<open>
  Cells carry their ports and parameters by name. A process owns its case tree: case
  rules and switch rules are allocated objects that the lowering reaches through
  pointers (the current case, a switch builder's parent, a branch's rule), so they live
  in a store indexed by their address, with the root case at address 0. Source
  locations and user attributes are not modelled.
\<close>

datatype Param = PInt int | PBool bool | PConst Const

record Cell =
  cell_name :: nat
  cell_type :: string
  connections :: "string \<rightharpoonup> SigSpec"
  parameters :: "string \<rightharpoonup> Param"

type_synonym SigSig = "SigSpec \<times> SigSpec"

datatype SyncType = ST0 | ST1 | STp | STn | STe | STa | STg | STi

record SyncRule =
  sync_type :: SyncType
  sync_signal :: SigSpec
  sync_actions :: "SigSig list"

record CaseRule =
  cr_compare :: "SigSpec list"
  cr_actions :: "SigSig list"
  cr_switches :: "nat list"

record SwitchRule =
  sw_signal :: SigSpec
  sw_cases :: "nat list"

record Process =
  proc_name :: nat
  case_rules :: "nat \<Rightarrow> CaseRule"
  switch_rules :: "nat \<Rightarrow> SwitchRule"
  next_rule :: nat
  syncs :: "SyncRule list"

record Module =
  autoidx :: nat
  wires :: "(nat \<times> nat) list"
  cells :: "Cell list"
  processes :: "Process list"

definition setPort :: "string \<Rightarrow> SigSpec \<Rightarrow> Cell \<Rightarrow> Cell" where
  "setPort p sig c = c\<lparr>connections := (connections c)(p \<mapsto> sig)\<rparr>"

definition setParam :: "string \<Rightarrow> Param \<Rightarrow> Cell \<Rightarrow> Cell" where
  "setParam p v c = c\<lparr>parameters := (parameters c)(p \<mapsto> v)\<rparr>"

definition wire_sig :: "nat \<Rightarrow> nat \<Rightarrow> SigSpec" where
  "wire_sig w width = map (WireBit w) [0..<width]"

text \<open>\<open>addWire(NEW_ID, width)\<close>: a wire under the next automatic name.\<close>

definition addWire_new :: "nat \<Rightarrow> Module \<Rightarrow> SigSpec \<times> Module" where
  "addWire_new width m =
     (wire_sig (autoidx m) width,
      m\<lparr>autoidx := Suc (autoidx m), wires := wires m @ [(autoidx m, width)]\<rparr>)"

text \<open>
  A two-input cell of the given type under a fresh name, with its width and sign
  parameters, driving a fresh output wire: what \<open>Biop\<close> writes out by hand and what the
  library's \<open>Module::Sub\<close>, \<open>Module::Le\<close>, ... do for the dedicated constructors.
\<close>

definition binary_cell ::
  "string \<Rightarrow> SigSpec \<Rightarrow> SigSpec \<Rightarrow> bool \<Rightarrow> bool \<Rightarrow> nat \<Rightarrow> Module \<Rightarrow> SigSpec \<times> Module" where
  "binary_cell op a b a_signed b_signed y_width m =
     (let n = autoidx m;
          m1 = m\<lparr>autoidx := Suc n\<rparr>;
          (y, m2) = addWire_new y_width m1;
          c = \<lparr>cell_name = n, cell_type = op,
               connections = [''A'' \<mapsto> a, ''B'' \<mapsto> b, ''Y'' \<mapsto> y],
               parameters = [''A_WIDTH'' \<mapsto> PInt (int (length a)),
                             ''B_WIDTH'' \<mapsto> PInt (int (length b)),
                             ''A_SIGNED'' \<mapsto> PBool a_signed,
                             ''B_SIGNED'' \<mapsto> PBool b_signed,
                             ''Y_WIDTH'' \<mapsto> PInt (int y_width)]\<rparr>
      in (y, m2\<lparr>cells := cells m2 @ [c]\<rparr>))"

subsection \<open>The library's constant folding\<close>

text \<open>
  The builder hands fully constant operands to the library's \<open>const_<op>\<close> functions.
  They are a parameter of the builder below: a table from the operator's name to a
  function of both operands, both signedness flags and the result length (negative for
  the default length).
\<close>

type_synonym const_fn = "Const \<Rightarrow> Const \<Rightarrow> bool \<Rightarrow> bool \<Rightarrow> int \<Rightarrow> Const"

text \<open>
  For evaluating concrete inputs, the library's subtraction and ordering folds are
  written out: operands become integers (two's complement when signed), any bit other
  than 0 or 1 makes the result undefined, a difference is cut to the result length, and
  a comparison yields one bit padded with zeros up to the result length.
\<close>

fun mag_of :: "bool list \<Rightarrow> nat" where
  "mag_of [] = 0"
| "mag_of (b # bs) = (if b then 1 else 0) + 2 * mag_of bs"

definition is_undef :: "State \<Rightarrow> bool" where
  "is_undef s = (s \<noteq> S0 \<and> s \<noteq> S1)"

definition const2big :: "Const \<Rightarrow> bool \<Rightarrow> int \<times> bool" where
  "const2big val as_signed =
     (if as_signed \<and> val \<noteq> [] \<and> last val = S1
      then (- (int (mag_of (map (\<lambda>s. s = S0) (butlast val))) + 1),
            list_ex is_undef (butlast val))
      else (int (mag_of (map (\<lambda>s. s = S1) val)), list_ex is_undef val))"

definition big2const :: "int \<Rightarrow> nat \<Rightarrow> bool \<Rightarrow> Const" where
  "big2const val result_len undef =
     (if undef then replicate result_len Sx
      else if val < 0 then
        map (\<lambda>i. if odd ((nat (- val) - 1) div 2 ^ i) then S0 else S1) [0..<result_len]
      else map (\<lambda>i. if odd (nat val div 2 ^ i) then S1 else S0) [0..<result_len])"

definition const_sub :: const_fn where
  "const_sub arg1 arg2 signed1 signed2 result_len =
     (let (x, u1) = const2big arg1 signed1;
          (y, u2) = const2big arg2 signed2
      in big2const (x - y)
           (if result_len \<ge> 0 then nat result_len else max (length arg1) (length arg2))
           (u1 \<or> u2))"

definition compare_result :: "bool \<Rightarrow> bool \<Rightarrow> int \<Rightarrow> Const" where
  "compare_result undef y result_len =
     (if undef then Sx else if y then S1 else S0) # replicate (nat result_len - 1) S0"

definition const_lt :: const_fn where
  "const_lt arg1 arg2 signed1 signed2 result_len =
     (let (x, u1) = const2big arg1 signed1;
          (y, u2) = const2big arg2 signed2
      in compare_result (u1 \<or> u2) (x < y) result_len)"

definition const_le :: const_fn where
  "const_le arg1 arg2 signed1 signed2 result_len =
     (let (x, u1) = const2big arg1 signed1;
          (y, u2) = const2big arg2 signed2
      in compare_result (u1 \<or> u2) (x \<le> y) result_len)"

definition const_gt :: const_fn where
  "const_gt arg1 arg2 signed1 signed2 result_len =
     (let (x, u1) = const2big arg1 signed1;
          (y, u2) = const2big arg2 signed2
      in compare_result (u1 \<or> u2) (x > y) result_len)"

definition const_ge :: const_fn where
  "const_ge arg1 arg2 signed1 signed2 result_len =
     (let (x, u1) = const2big arg1 signed1;
          (y, u2) = const2big arg2 signed2
      in compare_result (u1 \<or> u2) (x \<ge> y) result_len)"

text \<open>
  The table used where a theorem evaluates the builder on concrete constants. It holds
  the folds written out above; the theorems that use it evaluate it at \<open>sub\<close> and at
  the four orderings only.
\<close>

definition RTLIL_const :: "string \<Rightarrow> const_fn" where
  "RTLIL_const ty =
     (if ty = ''sub'' then const_sub
      else if ty = ''le'' then const_le
      else if ty = ''ge'' then const_ge
      else if ty = ''gt'' then const_gt
      else const_lt)"

section \<open>The IR builder\<close>

definition Sub :: "(string \<Rightarrow> const_fn) \<Rightarrow> SigSpec \<Rightarrow> SigSpec \<Rightarrow> bool \<Rightarrow> Module \<Rightarrow> SigSpec \<times> Module" where
  "Sub ir a b is_signed canvas =
     (if is_fully_ones b then (a, canvas)
      else if is_fully_const a \<and> is_fully_const b then
        (map Bit (ir ''sub'' (as_const a) (as_const b) is_signed is_signed
                    (int (max (length a) (length b)) + 1)), canvas)
      else binary_cell ''$sub'' a b is_signed is_signed (max (length a) (length b)) canvas)"

definition Le :: "(string \<Rightarrow> const_fn) \<Rightarrow> SigSpec \<Rightarrow> SigSpec \<Rightarrow> bool \<Rightarrow> Module \<Rightarrow> SigSpec \<times> Module" where
  "Le ir a b is_signed canvas =
     (if is_fully_const a \<and> is_fully_const b then
        (map Bit (ir ''le'' (as_const a) (as_const b) is_signed is_signed 1), canvas)
      else binary_cell ''$le'' a b is_signed is_signed 1 canvas)"

definition Ge :: "(string \<Rightarrow> const_fn) \<Rightarrow> SigSpec \<Rightarrow> SigSpec \<Rightarrow> bool \<Rightarrow> Module \<Rightarrow> SigSpec \<times> Module" where
  "Ge ir a b is_signed canvas =
     (if is_fully_const a \<and> is_fully_const b then
        (map Bit (ir ''ge'' (as_const a) (as_const b) is_signed is_signed 1), canvas)
      else binary_cell ''$ge'' a b is_signed is_signed 1 canvas)"

definition Lt :: "(string \<Rightarrow> const_fn) \<Rightarrow> SigSpec \<Rightarrow> SigSpec \<Rightarrow> bool \<Rightarrow> Module \<Rightarrow> SigSpec \<times> Module" where
  "Lt ir a b is_signed canvas =
     (if is_fully_const a \<and> is_fully_const b then
        (map Bit (ir ''lt'' (as_const a) (as_const b) is_signed is_signed 1), canvas)
      else binary_cell ''$lt'' a b is_signed is_signed 1 canvas)"

subsection \<open>Three-valued literals\<close>

definition ThreeValued_AND :: "int \<Rightarrow> int \<Rightarrow> int" where
  "ThreeValued_AND a b = (if a < 0 \<or> b < 0 then - 1 else if a > 0 \<and> b > 0 then 1 else 0)"

definition ThreeValued_NOT :: "int \<Rightarrow> int" where
  "ThreeValued_NOT lit = - lit"

definition ThreeValued_OR :: "int \<Rightarrow> int \<Rightarrow> int" where
  "ThreeValued_OR a b = ThreeValued_NOT (ThreeValued_AND (ThreeValued_NOT a) (ThreeValued_NOT b))"

definition ThreeValued_XOR :: "int \<Rightarrow> int \<Rightarrow> int" where
  "ThreeValued_XOR a b =
     ThreeValued_OR (ThreeValued_AND a (ThreeValued_NOT b)) (ThreeValued_AND (ThreeValued_NOT a) b)"

definition ThreeValued_XNOR :: "int \<Rightarrow> int \<Rightarrow> int" where
  "ThreeValued_XNOR a b =
     ThreeValued_NOT (ThreeValued_OR (ThreeValued_AND a (ThreeValued_NOT b))
                                     (ThreeValued_AND (ThreeValued_NOT a) b))"

definition ThreeValued_CARRY :: "int \<Rightarrow> int \<Rightarrow> int \<Rightarrow> int" where
  "ThreeValued_CARRY a b c =
     (if c > 0 then ThreeValued_OR a b
      else if c < - 1 then ThreeValued_AND a b
      else ThreeValued_OR (ThreeValued_AND a b) (ThreeValued_AND c (ThreeValued_OR a b)))"

definition ThreeValued_convert :: "SigBit \<Rightarrow> int" where
  "ThreeValued_convert sb = (if sb = Bit S1 then 1 else if sb = Bit S0 then - 1 else 0)"

subsection \<open>The generic two-operand constructor\<close>

definition folded_ops :: "string list" where
  "folded_ops = [''add'', ''sub'', ''mul'', ''divfloor'', ''div'', ''mod'', ''and'', ''or'',
     ''xor'', ''xnor'', ''eq'', ''ne'', ''nex'', ''eqx'', ''ge'', ''gt'', ''le'', ''lt'',
     ''logic_and'', ''logic_or'', ''sshl'', ''sshr'', ''shl'', ''shr'', ''pow'']"

text \<open>The first entry of the fold table whose cell type \<open>$<type>\<close> is \<open>op\<close>.\<close>

definition fold_type :: "string \<Rightarrow> string option" where
  "fold_type op = find (\<lambda>ty. op = CHR ''$'' # ty) folded_ops"

definition is_ordering :: "string \<Rightarrow> bool" where
  "is_ordering op = (op = ''$le'' \<or> op = ''$lt'' \<or> op = ''$gt'' \<or> op = ''$ge'')"

text \<open>
  One round of the comparison loop: the literals of bit \<open>i\<close> of both operands, each
  operand read past its end as its top bit when signed and as 0 otherwise, swapped for
  \<open>$gt\<close> and \<open>$ge\<close>; the carry moves on except in the last round.
\<close>

definition compare_step ::
  "string \<Rightarrow> SigSpec \<Rightarrow> SigSpec \<Rightarrow> bool \<Rightarrow> bool \<Rightarrow> nat \<Rightarrow> nat \<Rightarrow> int \<times> int \<times> int \<Rightarrow> int \<times> int \<times> int" where
  "compare_step op a b a_signed b_signed width i st =
     (case st of (carry, al0, bl0) \<Rightarrow>
        let abit = (if i < length a then a ! i else if a_signed then last a else Bit S0);
            bbit = (if i < length b then b ! i else if b_signed then last b else Bit S0);
            al1 = ThreeValued_convert abit;
            bl1 = ThreeValued_convert bbit;
            al = (if op = ''$gt'' \<or> op = ''$ge'' then bl1 else al1);
            bl = (if op = ''$gt'' \<or> op = ''$ge'' then al1 else bl1);
            carry' = (if i \<noteq> width - 1
                      then ThreeValued_CARRY al (ThreeValued_NOT bl) carry else carry)
        in (carry', al, bl))"

text \<open>
  The literal the loop ends with. Both operands are non-empty here, so the loop runs at
  least once and the start values of \<open>al\<close> and \<open>bl\<close> are never read.
\<close>

definition compare_literal :: "string \<Rightarrow> SigSpec \<Rightarrow> SigSpec \<Rightarrow> bool \<Rightarrow> bool \<Rightarrow> int" where
  "compare_literal op a b a_signed b_signed =
     (let carry0 = (if op = ''$le'' \<or> op = ''$ge'' then - 1 else 1);
          width = max (length a) (length b);
          (carry, al, bl) =
             fold (compare_step op a b a_signed b_signed width) [0..<width] (carry0, 0, 0)
      in ThreeValued_XOR carry (ThreeValued_XNOR al bl))"

definition as_bool :: "SigSpec \<Rightarrow> bool" where
  "as_bool sig = list_ex (\<lambda>b. b = Bit S1) sig"

definition Biop ::
  "(string \<Rightarrow> const_fn) \<Rightarrow> string \<Rightarrow> SigSpec \<Rightarrow> SigSpec \<Rightarrow> bool \<Rightarrow> bool \<Rightarrow> nat \<Rightarrow> Module
     \<Rightarrow> SigSpec \<times> Module" where
  "Biop ir op a b a_signed b_signed y_width canvas =
     (if is_fully_const a \<and> is_fully_const b \<and> fold_type op \<noteq> None then
        (map Bit (ir (the (fold_type op)) (as_const a) (as_const b) a_signed b_signed
                    (int y_width)), canvas)
      else if is_ordering op \<and> a \<noteq> [] \<and> b \<noteq> []
              \<and> compare_literal op a b a_signed b_signed < 0 then
        (replicate y_width (Bit S0), canvas)
      else if is_ordering op \<and> a \<noteq> [] \<and> b \<noteq> []
              \<and> compare_literal op a b a_signed b_signed > 0 then
        (extend_u0 [Bit S1] y_width False, canvas)
      else if op = ''$logic_and'' \<and> (is_fully_zero a \<or> is_fully_zero b) then
        (replicate y_width (Bit S0), canvas)
      else if op = ''$logic_or''
              \<and> ((is_fully_const a \<and> as_bool a) \<or> (is_fully_const b \<and> as_bool b)) then
        (extend_u0 [Bit S1] y_width False, canvas)
      else binary_cell op a b a_signed b_signed y_width canvas)"

subsection \<open>What the ordering folds are specified to do\<close>

text \<open>
  The specification's reading of the ordering fold: every bit is a literal, 1 for a
  constant 1, -1 for a constant 0 and 0 for anything else; the shorter operand is
  extended with its top bit when signed and with 0 otherwise; the carry runs through
  all positions below the top one; a definite final literal is returned as the
  constant 0 or 1 at the output width, and otherwise a comparator cell is emitted.
\<close>

definition literal :: "SigBit \<Rightarrow> int" where
  "literal sb = (case sb of Bit S1 \<Rightarrow> 1 | Bit S0 \<Rightarrow> - 1 | _ \<Rightarrow> 0)"

definition extend_operand :: "SigSpec \<Rightarrow> bool \<Rightarrow> nat \<Rightarrow> SigSpec" where
  "extend_operand sig is_signed width =
     sig @ replicate (width - length sig) (if is_signed then last sig else Bit S0)"

definition carry_chain :: "int \<Rightarrow> (int \<times> int) list \<Rightarrow> int" where
  "carry_chain c0 ps = foldl (\<lambda>c (x, y). ThreeValued_CARRY x (ThreeValued_NOT y) c) c0 ps"

definition three_valued_compare :: "string \<Rightarrow> SigSpec \<Rightarrow> SigSpec \<Rightarrow> bool \<Rightarrow> bool \<Rightarrow> int" where
  "three_valued_compare op a b a_signed b_signed =
     (let width = max (length a) (length b);
          xs = map literal (extend_operand a a_signed width);
          ys = map literal (extend_operand b b_signed width);
          ls = (if op = ''$gt'' \<or> op = ''$ge'' then ys else xs);
          rs = (if op = ''$gt'' \<or> op = ''$ge'' then xs else ys);
          c = carry_chain (if op = ''$le'' \<or> op = ''$ge'' then - 1 else 1)
                (zip (butlast ls) (butlast rs))
      in ThreeValued_XOR c (ThreeValued_XNOR (last ls) (last rs)))"

text \<open>The pairs of literals the carry runs over, position by position.\<close>

definition lits :: "string \<Rightarrow> SigSpec \<Rightarrow> SigSpec \<Rightarrow> bool \<Rightarrow> bool \<Rightarrow> nat \<Rightarrow> (int \<times> int) list" where
  "lits op a b a_signed b_signed width =
     (let xs = map literal (extend_operand a a_signed width);
          ys = map literal (extend_operand b b_signed width)
      in if op = ''$gt'' \<or> op = ''$ge'' then zip ys xs else zip xs ys)"

text \<open>The three literals.\<close>

definition tv :: "int \<Rightarrow> bool" where
  "tv x = (x = - 1 \<or> x = 0 \<or> x = 1)"

definition bool_const :: "bool \<Rightarrow> nat \<Rightarrow> SigSpec" where
  "bool_const v width = take width (Bit (if v then S1 else S0) # replicate (width - 1) (Bit S0))"

definition emits_cell :: "string \<Rightarrow> SigSpec \<Rightarrow> SigSpec \<Rightarrow> bool \<Rightarrow> bool \<Rightarrow> nat \<Rightarrow> Module
     \<Rightarrow> SigSpec \<times> Module \<Rightarrow> bool" where
  "emits_cell op a b a_signed b_signed y_width canvas r =
     (case r of (y, m) \<Rightarrow>
        length (cells m) = Suc (length (cells canvas)) \<and>
        butlast (cells m) = cells canvas \<and>
        cell_type (last (cells m)) = op \<and>
        connections (last (cells m)) ''A'' = Some a \<and>
        connections (last (cells m)) ''B'' = Some b \<and>
        connections (last (cells m)) ''Y'' = Some y \<and>
        parameters (last (cells m)) ''A_SIGNED'' = Some (PBool a_signed) \<and>
        parameters (last (cells m)) ''B_SIGNED'' = Some (PBool b_signed) \<and>
        parameters (last (cells m)) ''Y_WIDTH'' = Some (PInt (int y_width)) \<and>
        length y = y_width \<and> \<not> list_ex is_const_bit y)"

definition ordering_fold_spec ::
  "string \<Rightarrow> SigSpec \<Rightarrow> SigSpec \<Rightarrow> bool \<Rightarrow> bool \<Rightarrow> nat \<Rightarrow> Module \<Rightarrow> SigSpec \<times> Module \<Rightarrow> bool" where
  "ordering_fold_spec op a b a_signed b_signed y_width canvas r =
     (let lit = three_valued_compare op a b a_signed b_signed
      in if lit = 1 then r = (bool_const True y_width, canvas)
         else if lit = - 1 then r = (bool_const False y_width, canvas)
         else emits_cell op a b a_signed b_signed y_width canvas r)"

definition empty_module :: Module where
  "empty_module = \<lparr>autoidx = 0, wires = [], cells = [], processes = []\<rparr>"

section \<open>Expression lowering\<close>

text \<open>
  Lowering ends fatally on an unsupported construct, on a failed assertion, on an
  abort, or on an exception of the front end's value accessors. The assertion on the
  width of a lowered right-hand side has an error value of its own, so that it can be
  told from the other assertions.
\<close>

datatype error = Unimplemented | AssertionFailed | WidthAssertionFailed | Aborted | Exception

definition ebind :: "error + 'a \<Rightarrow> ('a \<Rightarrow> error + 'b) \<Rightarrow> error + 'b" where
  "ebind m f = (case m of Inl e \<Rightarrow> Inl e | Inr x \<Rightarrow> f x)"

subsection \<open>Bit dictionaries, sorting and chunks\<close>

text \<open>
  A dictionary from bits to bits is an association list with one entry per key. The
  lowering iterates over dictionaries only to collect keys that it then sorts, so the
  iteration order does not show.
\<close>

type_synonym sigdict = "(SigBit \<times> SigBit) list"

definition dict_count :: "sigdict \<Rightarrow> SigBit \<Rightarrow> bool" where
  "dict_count d k = (map_of d k \<noteq> None)"

definition dict_at :: "sigdict \<Rightarrow> SigBit \<Rightarrow> SigBit" where
  "dict_at d k = (case map_of d k of Some v \<Rightarrow> v | None \<Rightarrow> k)"

definition dict_set :: "SigBit \<Rightarrow> SigBit \<Rightarrow> sigdict \<Rightarrow> sigdict" where
  "dict_set k v d = AList.update k v d"

text \<open>The entries an iteration over the dictionary visits: one per key.\<close>

definition dict_items :: "sigdict \<Rightarrow> (SigBit \<times> SigBit) list" where
  "dict_items d = map (\<lambda>k. (k, dict_at d k)) (remdups (map fst d))"

text \<open>\<open>d[lhs[i]] = value[i]\<close> for every position, in order.\<close>

fun dict_set_all :: "SigSpec \<Rightarrow> SigSpec \<Rightarrow> sigdict \<Rightarrow> sigdict" where
  "dict_set_all (k # ks) (v # vs) d = dict_set_all ks vs (dict_set k v d)"
| "dict_set_all ks vs d = d"

text \<open>\<open>sig.replace(rules)\<close>: every bit that is a key is replaced by its value, once.\<close>

definition replace :: "sigdict \<Rightarrow> SigSpec \<Rightarrow> SigSpec" where
  "replace rules sig = map (dict_at rules) sig"

text \<open>
  The order of bits: constants first, by their state; wire bits after them, by the
  index of the wire's name and then by offset.
\<close>

fun State_rank :: "State \<Rightarrow> nat" where
  "State_rank S0 = 0"
| "State_rank S1 = 1"
| "State_rank Sx = 2"
| "State_rank Sz = 3"
| "State_rank Sa = 4"
| "State_rank Sm = 5"

fun bit_key :: "SigBit \<Rightarrow> nat \<times> nat" where
  "bit_key (Bit s) = (0, State_rank s)"
| "bit_key (WireBit w i) = (Suc w, i)"

definition sort_bits :: "SigSpec \<Rightarrow> SigSpec" where
  "sort_bits sig = sort_key bit_key sig"

definition sort_and_unify :: "SigSpec \<Rightarrow> SigSpec" where
  "sort_and_unify sig = sort_key bit_key (remdups sig)"

text \<open>
  The chunks of a signal: maximal runs of constant bits, and maximal runs of bits of
  one wire at consecutive offsets.
\<close>

fun continues :: "SigBit \<Rightarrow> SigBit \<Rightarrow> bool" where
  "continues (Bit s) (Bit t) = True"
| "continues (WireBit w i) (WireBit v j) = (w = v \<and> j = Suc i)"
| "continues a b = False"

fun chunks :: "SigSpec \<Rightarrow> SigSpec list" where
  "chunks [] = []"
| "chunks (b # bs) =
     (case chunks bs of
        [] \<Rightarrow> [[b]]
      | c # cs \<Rightarrow> if continues b (hd c) then (b # c) # cs else [b] # c # cs)"

subsection \<open>What the lowering reads of the typed syntax tree\<close>

text \<open>
  The front end hands over a typed tree. Of a type the lowering reads its bitstream
  width, its bit width, its signedness, whether it is of fixed size, integral or an
  array, and its fixed range if it has one. A range \<open>[left:right]\<close> translates an
  index to the position counted from the range's least significant end: from the lower
  bound when \<open>left \<ge> right\<close>, from the upper bound otherwise.
\<close>

record ConstantRange =
  range_left :: int
  range_right :: int

definition range_upper :: "ConstantRange \<Rightarrow> int" where
  "range_upper r = max (range_left r) (range_right r)"

definition range_lower :: "ConstantRange \<Rightarrow> int" where
  "range_lower r = min (range_left r) (range_right r)"

definition range_width :: "ConstantRange \<Rightarrow> int" where
  "range_width r = range_upper r - range_lower r + 1"

definition translateIndex :: "ConstantRange \<Rightarrow> int \<Rightarrow> int" where
  "translateIndex r i =
     (if range_left r \<ge> range_right r then i - range_lower r else range_upper r - i)"

record Type =
  bitstreamWidth :: nat
  bitWidth :: nat
  isSigned :: bool
  isFixedSize :: bool
  isIntegral :: bool
  isArray :: bool
  fixedRange :: "ConstantRange option"

datatype ConstantValue = CVInteger Const | CVOther

datatype SymbolKind = Net | Variable | Parameter | FormalArgument | OtherSymbol

text \<open>
  A value symbol: its name in the netlist, its kind and type, whether its parent scope
  is an instance body, and the constant of its initializer if it has an initializer
  and that has a constant.
\<close>

record Symbol =
  sym_name :: nat
  sym_kind :: SymbolKind
  sym_type :: Type
  sym_in_instance_body :: bool
  sym_has_initializer :: bool
  sym_initializer_constant :: "ConstantValue option"

datatype UnaryOperator =
    Plus | Minus | BitwiseNot | BitwiseAnd | BitwiseOr | BitwiseXor | BitwiseNand
  | BitwiseNor | BitwiseXnor | LogicalNot | Preincrement | Predecrement
  | Postincrement | Postdecrement

datatype BinaryOperator =
    Add | Subtract | Multiply | Divide | Mod | BinaryAnd | BinaryOr | BinaryXor | BinaryXnor
  | Equality | Inequality | CaseEquality | CaseInequality | GreaterThanEqual | GreaterThan
  | LessThanEqual | LessThan | WildcardEquality | WildcardInequality | LogicalAnd | LogicalOr
  | LogicalImplication | LogicalEquivalence | LogicalShiftLeft | LogicalShiftRight
  | ArithmeticShiftLeft | ArithmeticShiftRight | Power

datatype RangeSelectionKind = Simple | IndexedUp | IndexedDown

text \<open>
  Every expression has its type and, once the front end was asked to evaluate it, its
  constant if it has one. A select's bounds and a replication's count are read through
  their constants only, as machine integers. A member access names a field by its bit
  offset (or something that is not a plain field). A call is a system call by name or
  a call of a subroutine, given by its kind, the names of its formal arguments, the
  name of its return value variable and its body; the body's type is a parameter
  here.
\<close>

record ExprInfo =
  expr_type :: Type
  expr_constant :: "ConstantValue option"

datatype Member = Field nat | RandField nat | OtherMember

datatype SubroutineKind = Function | Task

datatype 'f Expression =
    NamedValue ExprInfo Symbol
  | UnaryOp ExprInfo UnaryOperator "'f Expression"
  | BinaryOp ExprInfo BinaryOperator "'f Expression" "'f Expression"
  | Conversion ExprInfo "'f Expression"
  | IntegerLiteral ExprInfo Const
  | RangeSelect ExprInfo RangeSelectionKind "'f Expression" "int option" "int option"
  | ElementSelect ExprInfo "'f Expression" "'f Expression"
  | Concatenation ExprInfo "'f Expression list"
  | ConditionalOp ExprInfo "('f Expression \<times> bool) list" "'f Expression" "'f Expression"
  | Replication ExprInfo "int option" "'f Expression"
  | MemberAccess ExprInfo "'f Expression" Member
  | SystemCall ExprInfo string "'f Expression list"
  | SubroutineCall ExprInfo SubroutineKind "nat list" nat 'f "'f Expression list"
  | OtherExpression ExprInfo

fun info :: "'f Expression \<Rightarrow> ExprInfo" where
  "info (NamedValue h s) = h"
| "info (UnaryOp h op a) = h"
| "info (BinaryOp h op a b) = h"
| "info (Conversion h a) = h"
| "info (IntegerLiteral h c) = h"
| "info (RangeSelect h k a l r) = h"
| "info (ElementSelect h a i) = h"
| "info (Concatenation h es) = h"
| "info (ConditionalOp h cs l r) = h"
| "info (Replication h n a) = h"
| "info (MemberAccess h a f) = h"
| "info (SystemCall h n es) = h"
| "info (SubroutineCall h k formals rv f es) = h"
| "info (OtherExpression h) = h"

definition type_of :: "'f Expression \<Rightarrow> Type" where
  "type_of e = expr_type (info e)"

subsection \<open>Cells the lowering adds through the module\<close>

text \<open>\<open>mod->wire(name)\<close>: the wire of that name, if the module has one.\<close>

definition wire :: "Module \<Rightarrow> nat \<Rightarrow> SigSpec option" where
  "wire m n = map_option (wire_sig n) (map_of (wires m) n)"

text \<open>A one-input cell under a fresh name driving a fresh wire of the given width.\<close>

definition unary_cell :: "string \<Rightarrow> SigSpec \<Rightarrow> bool \<Rightarrow> nat \<Rightarrow> Module \<Rightarrow> SigSpec \<times> Module" where
  "unary_cell op a a_signed y_width m =
     (let n = autoidx m;
          m1 = m\<lparr>autoidx := Suc n\<rparr>;
          (y, m2) = addWire_new y_width m1;
          c = \<lparr>cell_name = n, cell_type = op,
               connections = [''A'' \<mapsto> a, ''Y'' \<mapsto> y],
               parameters = [''A_WIDTH'' \<mapsto> PInt (int (length a)),
                             ''A_SIGNED'' \<mapsto> PBool a_signed,
                             ''Y_WIDTH'' \<mapsto> PInt (int y_width)]\<rparr>
      in (y, m2\<lparr>cells := cells m2 @ [c]\<rparr>))"

text \<open>\<open>mod->addLogicNot(NEW_ID, a, y)\<close>: the inverter between two given signals.\<close>

definition addLogicNot :: "SigSpec \<Rightarrow> SigSpec \<Rightarrow> Module \<Rightarrow> Module" where
  "addLogicNot a y m =
     m\<lparr>autoidx := Suc (autoidx m),
       cells := cells m @
         [\<lparr>cell_name = autoidx m, cell_type = ''$logic_not'',
           connections = [''A'' \<mapsto> a, ''Y'' \<mapsto> y],
           parameters = [''A_WIDTH'' \<mapsto> PInt (int (length a)),
                         ''A_SIGNED'' \<mapsto> PBool False,
                         ''Y_WIDTH'' \<mapsto> PInt (int (length y))]\<rparr>]\<rparr>"

text \<open>The multiplexers: \<open>$mux\<close> is as wide as its first input, \<open>$bmux\<close> as one slice.\<close>

definition module_Mux :: "SigSpec \<Rightarrow> SigSpec \<Rightarrow> SigSpec \<Rightarrow> Module \<Rightarrow> SigSpec \<times> Module" where
  "module_Mux a b sel m =
     (let n = autoidx m;
          (y, m2) = addWire_new (length a) (m\<lparr>autoidx := Suc n\<rparr>);
          c = \<lparr>cell_name = n, cell_type = ''$mux'',
               connections = [''A'' \<mapsto> a, ''B'' \<mapsto> b, ''S'' \<mapsto> sel, ''Y'' \<mapsto> y],
               parameters = [''WIDTH'' \<mapsto> PInt (int (length a))]\<rparr>
      in (y, m2\<lparr>cells := cells m2 @ [c]\<rparr>))"

definition module_Bmux :: "SigSpec \<Rightarrow> SigSpec \<Rightarrow> Module \<Rightarrow> SigSpec \<times> Module" where
  "module_Bmux a sel m =
     (let n = autoidx m;
          (y, m2) = addWire_new (length a div 2 ^ length sel) (m\<lparr>autoidx := Suc n\<rparr>);
          c = \<lparr>cell_name = n, cell_type = ''$bmux'',
               connections = [''A'' \<mapsto> a, ''S'' \<mapsto> sel, ''Y'' \<mapsto> y],
               parameters = [''WIDTH'' \<mapsto> PInt (int (length y)),
                             ''S_WIDTH'' \<mapsto> PInt (int (length sel))]\<rparr>
      in (y, m2\<lparr>cells := cells m2 @ [c]\<rparr>))"

text \<open>\<open>RTLIL::Const(int)\<close>: the 32 bits of the integer in two's complement.\<close>

definition Const_int :: "int \<Rightarrow> SigSpec" where
  "Const_int n = map (\<lambda>i. Bit (if odd (n div 2 ^ i) then S1 else S0)) [0..<32]"

text \<open>
  \<open>ceil_log2\<close>: the first shift below 32 that clears \<open>x - 1\<close>; a 32-bit integer
  always has one.
\<close>

definition ceil_log2 :: "int \<Rightarrow> nat" where
  "ceil_log2 x =
     (if x \<le> 0 then 0
      else case find (\<lambda>i. nat (x - 1) div 2 ^ i = 0) [0..<32] of Some i \<Rightarrow> i | None \<Rightarrow> 32)"

subsection \<open>Lowering a right-hand side\<close>

text \<open>
  Inside a procedure the lowering has a context: the substitutions that blocking
  assignments have made so far, and the signals bound to a function's formal
  arguments.
\<close>

record ProcedureContext =
  rvalue_subs :: sigdict
  args :: "(nat \<times> SigSpec) list"

text \<open>
  The assertions every path through \<open>done\<close> ends with, and the shortcut for an
  expression the front end has a constant for.
\<close>

definition done_check :: "ExprInfo \<Rightarrow> error + SigSpec \<times> Module \<Rightarrow> error + SigSpec \<times> Module" where
  "done_check h r =
     ebind r (\<lambda>(ret, m).
       if \<not> isFixedSize (expr_type h) then Inl AssertionFailed
       else if length ret \<noteq> bitstreamWidth (expr_type h) then Inl WidthAssertionFailed
       else Inr (ret, m))"

definition const_or :: "ExprInfo \<Rightarrow> Module \<Rightarrow> error + SigSpec \<times> Module \<Rightarrow> error + SigSpec \<times> Module" where
  "const_or h m k =
     (case expr_constant h of
        Some (CVInteger c) \<Rightarrow> done_check h (Inr (map Bit c, m))
      | Some CVOther \<Rightarrow> Inl Exception
      | None \<Rightarrow> k)"

definition unary_cell_type :: "UnaryOperator \<Rightarrow> (string \<times> bool) option" where
  "unary_cell_type op =
     (case op of
        LogicalNot \<Rightarrow> Some (''$logic_not'', False)
      | BitwiseNot \<Rightarrow> Some (''$not'', False)
      | BitwiseOr \<Rightarrow> Some (''$reduce_or'', False)
      | BitwiseAnd \<Rightarrow> Some (''$reduce_and'', False)
      | BitwiseNand \<Rightarrow> Some (''$reduce_and'', True)
      | BitwiseNor \<Rightarrow> Some (''$reduce_or'', True)
      | _ \<Rightarrow> None)"

definition binary_cell_type :: "BinaryOperator \<Rightarrow> string option" where
  "binary_cell_type op =
     (case op of
        Add \<Rightarrow> Some ''$add'' | Subtract \<Rightarrow> Some ''$sub'' | Multiply \<Rightarrow> Some ''$mul''
      | Divide \<Rightarrow> Some ''$divfloor'' | Mod \<Rightarrow> Some ''$mod''
      | BinaryAnd \<Rightarrow> Some ''$and'' | BinaryOr \<Rightarrow> Some ''$or''
      | BinaryXor \<Rightarrow> Some ''$xor'' | BinaryXnor \<Rightarrow> Some ''$xnor''
      | Equality \<Rightarrow> Some ''$eq'' | Inequality \<Rightarrow> Some ''$ne''
      | GreaterThanEqual \<Rightarrow> Some ''$ge'' | GreaterThan \<Rightarrow> Some ''$gt''
      | LessThanEqual \<Rightarrow> Some ''$le'' | LessThan \<Rightarrow> Some ''$lt''
      | LogicalAnd \<Rightarrow> Some ''$logic_and'' | LogicalOr \<Rightarrow> Some ''$logic_or''
      | LogicalShiftLeft \<Rightarrow> Some ''$sshl'' | LogicalShiftRight \<Rightarrow> Some ''$sshr''
      | ArithmeticShiftLeft \<Rightarrow> Some ''$shl'' | ArithmeticShiftRight \<Rightarrow> Some ''$shr''
      | Power \<Rightarrow> Some ''$pow''
      | _ \<Rightarrow> None)"

text \<open>
  The unary case once the operand is lowered: the cell for the operator on a fresh
  output wire of the expression's width and, for the two negated reductions, an
  inverter from that wire to a second fresh wire. The signal the case leaves in \<open>ret\<close>
  is the first wire.
\<close>

definition lower_unary :: "ExprInfo \<Rightarrow> UnaryOperator \<Rightarrow> bool \<Rightarrow> SigSpec \<Rightarrow> Module \<Rightarrow> error + SigSpec \<times> Module" where
  "lower_unary h op operand_signed left m =
     (case unary_cell_type op of
        None \<Rightarrow> Inl Unimplemented
      | Some (ty, invert) \<Rightarrow>
          let (ret, m1) = unary_cell ty left operand_signed (bitstreamWidth (expr_type h)) m
          in if invert then
               let (new_ret, m2) = addWire_new 1 m1
               in Inr (ret, addLogicNot ret new_ret m2)
             else Inr (ret, m1))"

text \<open>
  The binary case once both operands are lowered. The cell's \<open>Y_WIDTH\<close> is the type's
  bit width, its output wire has the type's bitstream width, and the shifts get their
  sign parameters cleared.
\<close>

definition lower_binary ::
  "ExprInfo \<Rightarrow> BinaryOperator \<Rightarrow> bool \<Rightarrow> bool \<Rightarrow> SigSpec \<Rightarrow> SigSpec \<Rightarrow> Module
     \<Rightarrow> error + SigSpec \<times> Module" where
  "lower_binary h op left_signed right_signed left right m =
     (case binary_cell_type op of
        None \<Rightarrow> Inl Unimplemented
      | Some ty \<Rightarrow>
          let n = autoidx m;
              (ret, m2) = addWire_new (bitstreamWidth (expr_type h)) (m\<lparr>autoidx := Suc n\<rparr>);
              c = \<lparr>cell_name = n, cell_type = ty,
                   connections = [''A'' \<mapsto> left, ''B'' \<mapsto> right, ''Y'' \<mapsto> ret],
                   parameters = [''A_WIDTH'' \<mapsto> PInt (int (length left)),
                                 ''B_WIDTH'' \<mapsto> PInt (int (length right)),
                                 ''A_SIGNED'' \<mapsto> PBool left_signed,
                                 ''B_SIGNED'' \<mapsto> PBool right_signed,
                                 ''Y_WIDTH'' \<mapsto> PInt (int (bitWidth (expr_type h)))]\<rparr>;
              c1 = (if ty = ''$shr'' then setParam ''B_SIGNED'' (PBool False) c else c);
              c2 = (if ty = ''$sshr'' \<or> ty = ''$sshl''
                    then setParam ''B_SIGNED'' (PBool False) (setParam ''A_SIGNED'' (PBool False) c1)
                    else c1)
          in Inr (ret, m2\<lparr>cells := cells m2 @ [c2]\<rparr>))"

text \<open>\<open>sig.extract(offset, length)\<close> asserts that the slice lies within the signal.\<close>

definition sig_extract :: "SigSpec \<Rightarrow> int \<Rightarrow> int \<Rightarrow> error + SigSpec" where
  "sig_extract sig offset len =
     (if offset < 0 \<or> len < 0 \<or> offset + len > int (length sig) then Inl AssertionFailed
      else Inr (take (nat len) (drop (nat offset) sig)))"

text \<open>
  The index translation once the index is lowered. The library's comparison,
  conjunction and subtraction constructors each emit a cell; the range's bounds enter
  as 32-bit constants.
\<close>

definition translate_index_sig :: "bool \<Rightarrow> ConstantRange \<Rightarrow> SigSpec \<Rightarrow> Module \<Rightarrow> (SigSpec \<times> SigSpec) \<times> Module" where
  "translate_index_sig idx_signed rng idx0 m =
     (let idx = (if \<not> idx_signed then idx0 @ [Bit S0] else idx0);
          (le, m1) = binary_cell ''$le'' idx (Const_int (range_upper rng)) True True 1 m;
          (ge, m2) = binary_cell ''$ge'' idx (Const_int (range_lower rng)) True True 1 m1;
          (valid, m3) = binary_cell ''$logic_and'' le ge False False 1 m2;
          (raw_idx, m4) =
             (if range_left rng > range_right rng
              then binary_cell ''$sub'' idx (Const_int (range_right rng)) True True
                     (max (length idx) 32) m3
              else binary_cell ''$sub'' (Const_int (range_right rng)) idx True True
                     (max 32 (length idx)) m3)
      in ((extend_u0 raw_idx (ceil_log2 (range_width rng)) False, valid), m4))"

text \<open>
  The lowering itself. The parameter \<open>run\<close> stands for running the procedural visitor
  over a called function's body in a new process with the evaluated arguments bound;
  it yields the visitor's staging map.
\<close>

type_synonym 'f body_runner =
  "'f \<Rightarrow> nat \<Rightarrow> (nat \<times> SigSpec) list \<Rightarrow> Module \<Rightarrow> error + sigdict \<times> Module"

text \<open>A net or variable: its wire, read through the substitutions of the context.\<close>

definition named_value :: "ProcedureContext option \<Rightarrow> Symbol \<Rightarrow> Module \<Rightarrow> error + SigSpec \<times> Module" where
  "named_value cx symb m =
     (if \<not> sym_in_instance_body symb then Inl Unimplemented
      else case wire m (sym_name symb) of
        None \<Rightarrow> Inl AssertionFailed
      | Some w \<Rightarrow> Inr (case cx of None \<Rightarrow> w | Some c \<Rightarrow> replace (rvalue_subs c) w, m))"

lemma ebind_cong [fundef_cong]:
  "m = m' \<Longrightarrow> (\<And>x. m' = Inr x \<Longrightarrow> f x = f' x) \<Longrightarrow> ebind m f = ebind m' f'"
  by (auto simp: ebind_def split: sum.splits)


fun evaluate_rhs ::
      "'f body_runner \<Rightarrow> ProcedureContext option \<Rightarrow> 'f Expression \<Rightarrow> Module
         \<Rightarrow> error + SigSpec \<times> Module"
  and evaluate_rhs_list ::
      "'f body_runner \<Rightarrow> ProcedureContext option \<Rightarrow> 'f Expression list \<Rightarrow> Module
         \<Rightarrow> error + SigSpec list \<times> Module"
where
  "evaluate_rhs run cx (NamedValue h symb) m =
     const_or h m (done_check h
       (case sym_kind symb of
          Net \<Rightarrow> named_value cx symb m
        | Variable \<Rightarrow> named_value cx symb m
        | Parameter \<Rightarrow>
            if \<not> sym_has_initializer symb then Inl Unimplemented
            else (case sym_initializer_constant symb of
                    Some (CVInteger c) \<Rightarrow> Inr (map Bit c, m)
                  | _ \<Rightarrow> Inl Unimplemented)
        | FormalArgument \<Rightarrow>
            (case cx of
               None \<Rightarrow> Inl Unimplemented
             | Some c \<Rightarrow>
                 (case map_of (args c) (sym_name symb) of
                    None \<Rightarrow> Inl Unimplemented
                  | Some sig \<Rightarrow> Inr (sig, m)))
        | OtherSymbol \<Rightarrow> Inl Unimplemented))"
| "evaluate_rhs run cx (UnaryOp h op operand) m =
     const_or h m (done_check h
       (ebind (evaluate_rhs run cx operand m)
          (\<lambda>(left, m1). lower_unary h op (isSigned (type_of operand)) left m1)))"
| "evaluate_rhs run cx (BinaryOp h op l r) m =
     const_or h m (done_check h
       (ebind (evaluate_rhs run cx l m)
          (\<lambda>(left, m1). ebind (evaluate_rhs run cx r m1)
             (\<lambda>(right, m2).
                lower_binary h op (isSigned (type_of l)) (isSigned (type_of r)) left right m2))))"
| "evaluate_rhs run cx (Conversion h operand) m =
     const_or h m (done_check h
       (if \<not> isIntegral (type_of operand) \<or> \<not> isIntegral (expr_type h) then Inl Unimplemented
        else if \<not> (isSigned (type_of operand) = isSigned (expr_type h)
                    \<or> bitWidth (expr_type h) \<le> bitWidth (type_of operand))
        then Inl Unimplemented
        else ebind (evaluate_rhs run cx operand m)
               (\<lambda>(ret, m1).
                  Inr (extend_u0 ret (bitWidth (expr_type h)) (isSigned (expr_type h)), m1))))"
| "evaluate_rhs run cx (IntegerLiteral h c) m =
     const_or h m (done_check h (Inr (map Bit c, m)))"
| "evaluate_rhs run cx (RangeSelect h kind val left right) m =
     const_or h m (done_check h
       (if kind \<noteq> Simple then Inl Unimplemented
        else case (left, right) of
          (Some l, Some r) \<Rightarrow>
            (case fixedRange (type_of val) of
               None \<Rightarrow> Inl Unimplemented
             | Some rng \<Rightarrow>
                 let raw_left = translateIndex rng l;
                     raw_right = translateIndex rng r
                 in if int (bitstreamWidth (type_of val)) mod range_width rng \<noteq> 0
                    then Inl AssertionFailed
                    else
                      let stride = int (bitstreamWidth (type_of val)) div range_width rng
                      in ebind (evaluate_rhs run cx val m)
                           (\<lambda>(sig, m1).
                              ebind (sig_extract sig (raw_right * stride)
                                       (stride * (raw_left - raw_right + 1)))
                                (\<lambda>ret. Inr (ret, m1))))
        | _ \<Rightarrow> Inl Unimplemented))"
| "evaluate_rhs run cx (ElementSelect h val selector) m =
     const_or h m (done_check h
       (case (isArray (type_of val), fixedRange (type_of val)) of
          (True, Some rng) \<Rightarrow>
            let stride = bitstreamWidth (expr_type h)
            in ebind (evaluate_rhs run cx val m)
                 (\<lambda>(base_value, m1).
                    if stride = 0 then Inl Aborted
                    else if length base_value mod stride \<noteq> 0 then Inl AssertionFailed
                    else ebind (evaluate_rhs run cx selector m1)
                      (\<lambda>(idx, m2).
                         let ((raw_idx, valid), m3) =
                               translate_index_sig (isSigned (type_of selector)) rng idx m2
                         in if stride * 2 ^ length raw_idx < length base_value
                            then Inl AssertionFailed
                            else
                              let padded = base_value @
                                     replicate (stride * 2 ^ length raw_idx - length base_value) (Bit Sx);
                                  (picked, m4) = module_Bmux padded raw_idx m3
                              in Inr (module_Mux (replicate stride (Bit Sx)) picked valid m4)))
        | _ \<Rightarrow> Inl Unimplemented))"
| "evaluate_rhs run cx (Concatenation h operands) m =
     const_or h m (done_check h
       (ebind (evaluate_rhs_list run cx operands m)
          (\<lambda>(sigs, m1). Inr (concat (rev sigs), m1))))"
| "evaluate_rhs run cx (ConditionalOp h [(cond, has_pattern)] l r) m =
     const_or h m (done_check h
       (if has_pattern then Inl Unimplemented
        else ebind (evaluate_rhs run cx r m)
          (\<lambda>(a, m1). ebind (evaluate_rhs run cx l m1)
             (\<lambda>(b, m2). ebind (evaluate_rhs run cx cond m2)
                (\<lambda>(c, m3).
                   let (s, m4) = unary_cell ''$reduce_bool'' c False 1 m3
                   in Inr (module_Mux a b s m4))))))"
| "evaluate_rhs run cx (ConditionalOp h conds l r) m =
     const_or h m (Inl Unimplemented)"
| "evaluate_rhs run cx (Replication h count operand) m =
     const_or h m (done_check h
       (case count of
          None \<Rightarrow> Inl Unimplemented
        | Some reps \<Rightarrow>
            ebind (evaluate_rhs run cx operand m)
              (\<lambda>(sig, m1). Inr (concat (replicate (nat reps) sig), m1))))"
| "evaluate_rhs run cx (MemberAccess h val member) m =
     const_or h m
       (case member of
          Field bitOffset \<Rightarrow>
            ebind (evaluate_rhs run cx val m)
              (\<lambda>(sig, m1).
                 ebind (sig_extract sig (int bitOffset) (int (bitstreamWidth (expr_type h))))
                   (\<lambda>ret. Inr (ret, m1)))
        | _ \<Rightarrow> Inl Unimplemented)"
| "evaluate_rhs run cx (SystemCall h name arguments) m =
     const_or h m (done_check h
       (if name \<noteq> ''$signed'' then Inl Unimplemented
        else case arguments of
          [a] \<Rightarrow> evaluate_rhs run cx a m
        | _ \<Rightarrow> Inl Unimplemented))"
| "evaluate_rhs run cx (SubroutineCall h kind formals retvar body arguments) m =
     const_or h m
       (if kind \<noteq> Function then Inl Unimplemented
        else if length arguments \<noteq> length formals then Inl AssertionFailed
        else ebind (evaluate_rhs_list run cx arguments (m\<lparr>autoidx := Suc (autoidx m)\<rparr>))
          (\<lambda>(sigs, m1). ebind (run body (autoidx m) (zip formals sigs) m1)
             (\<lambda>(stg, m2).
                case wire m2 retvar of
                  None \<Rightarrow> Inl AssertionFailed
                | Some w \<Rightarrow> Inr (replace stg w, m2))))"
| "evaluate_rhs run cx (OtherExpression h) m = const_or h m (Inl Unimplemented)"
| "evaluate_rhs_list run cx [] m = Inr ([], m)"
| "evaluate_rhs_list run cx (e # es) m =
     ebind (evaluate_rhs run cx e m)
       (\<lambda>(sig, m1). ebind (evaluate_rhs_list run cx es m1)
          (\<lambda>(sigs, m2). Inr (sig # sigs, m2)))"


text \<open>Types, symbols and a module for examples.\<close>

definition logic_type :: "nat \<Rightarrow> Type" where
  "logic_type w = \<lparr>bitstreamWidth = w, bitWidth = w, isSigned = False, isFixedSize = True,
     isIntegral = True, isArray = (w > 1),
     fixedRange = (if w > 1 then Some \<lparr>range_left = int w - 1, range_right = 0\<rparr> else None)\<rparr>"

definition variable :: "nat \<Rightarrow> nat \<Rightarrow> Symbol" where
  "variable n w = \<lparr>sym_name = n, sym_kind = Variable, sym_type = logic_type w,
     sym_in_instance_body = True, sym_has_initializer = False,
     sym_initializer_constant = None\<rparr>"

definition no_calls :: "unit body_runner" where
  "no_calls body n bound m = Inl Unimplemented"

definition nand_example :: "unit Expression" where
  "nand_example =
     UnaryOp \<lparr>expr_type = logic_type 1, expr_constant = None\<rparr> BitwiseNand
       (NamedValue \<lparr>expr_type = logic_type 2, expr_constant = None\<rparr> (variable 7 2))"

definition example_module :: Module where
  "example_module = \<lparr>autoidx = 10, wires = [(7, 2)], cells = [], processes = []\<rparr>"

subsection \<open>What the front end guarantees about widths\<close>

text \<open>
  The lowering relies on the typed syntax tree being consistent. The facts it relies on
  for the width of its result are collected in \<open>well_typed\<close>, relative to the declared
  widths \<open>ds\<close> of the module's value symbols (the wires the wire-adding pass creates
  for them) and to a predicate \<open>good\<close> on function bodies:
  a constant is as wide as its expression's type; a name has its symbol's type and the
  symbol is declared with it; an integral conversion target is as wide as its bit
  width; a range select has the element width times the number of selected elements
  and runs in the direction of the declaration; a concatenation is as wide as its
  operands together; both branches of a conditional have its width; a replication is
  the count times its operand; \<open>$signed\<close> keeps the width; a call has the width of the
  function's return variable, and each formal argument is declared with the width of
  its actual argument.
\<close>

type_synonym decls = "(nat \<times> nat) list"

definition const_ok :: "ExprInfo \<Rightarrow> bool" where
  "const_ok h =
     (case expr_constant h of
        Some (CVInteger c) \<Rightarrow> length c = bitstreamWidth (expr_type h)
      | _ \<Rightarrow> True)"

fun well_typed :: "decls \<Rightarrow> ('f \<Rightarrow> bool) \<Rightarrow> 'f Expression \<Rightarrow> bool"
  and well_typed_list :: "decls \<Rightarrow> ('f \<Rightarrow> bool) \<Rightarrow> 'f Expression list \<Rightarrow> bool"
where
  "well_typed ds good (NamedValue h symb) =
     (const_ok h \<and> bitstreamWidth (expr_type h) = bitstreamWidth (sym_type symb) \<and>
      (case sym_kind symb of
         Parameter \<Rightarrow>
           (case sym_initializer_constant symb of
              Some (CVInteger c) \<Rightarrow> length c = bitstreamWidth (sym_type symb)
            | _ \<Rightarrow> True)
       | OtherSymbol \<Rightarrow> True
       | _ \<Rightarrow> map_of ds (sym_name symb) = Some (bitstreamWidth (sym_type symb))))"
| "well_typed ds good (UnaryOp h op a) = (const_ok h \<and> well_typed ds good a)"
| "well_typed ds good (BinaryOp h op l r) =
     (const_ok h \<and> well_typed ds good l \<and> well_typed ds good r)"
| "well_typed ds good (Conversion h a) =
     (const_ok h \<and> (isIntegral (expr_type h) \<longrightarrow> bitWidth (expr_type h) = bitstreamWidth (expr_type h)) \<and>
      well_typed ds good a)"
| "well_typed ds good (IntegerLiteral h c) =
     (const_ok h \<and> length c = bitstreamWidth (expr_type h))"
| "well_typed ds good (RangeSelect h kind val left right) =
     (const_ok h \<and> well_typed ds good val \<and>
      (case (left, right, fixedRange (type_of val)) of
         (Some l, Some r, Some rng) \<Rightarrow>
           int (bitstreamWidth (expr_type h))
             = (int (bitstreamWidth (type_of val)) div range_width rng) * (\<bar>l - r\<bar> + 1) \<and>
           (if range_left rng \<ge> range_right rng then l \<ge> r else l \<le> r)
       | _ \<Rightarrow> True))"
| "well_typed ds good (ElementSelect h val selector) =
     (const_ok h \<and> well_typed ds good val \<and> well_typed ds good selector)"
| "well_typed ds good (Concatenation h operands) =
     (const_ok h \<and>
      bitstreamWidth (expr_type h) = sum_list (map (\<lambda>e. bitstreamWidth (type_of e)) operands) \<and>
      well_typed_list ds good operands)"
| "well_typed ds good (ConditionalOp h [(cond, has_pattern)] l r) =
     (const_ok h \<and> bitstreamWidth (type_of l) = bitstreamWidth (expr_type h) \<and>
      bitstreamWidth (type_of r) = bitstreamWidth (expr_type h) \<and>
      well_typed ds good cond \<and> well_typed ds good l \<and> well_typed ds good r)"
| "well_typed ds good (ConditionalOp h conds l r) =
     (const_ok h \<and> bitstreamWidth (type_of l) = bitstreamWidth (expr_type h) \<and>
      bitstreamWidth (type_of r) = bitstreamWidth (expr_type h) \<and>
      well_typed ds good l \<and> well_typed ds good r)"
| "well_typed ds good (Replication h count a) =
     (const_ok h \<and> well_typed ds good a \<and>
      (case count of
         Some reps \<Rightarrow> bitstreamWidth (expr_type h) = nat reps * bitstreamWidth (type_of a)
       | None \<Rightarrow> True))"
| "well_typed ds good (MemberAccess h val member) = (const_ok h \<and> well_typed ds good val)"
| "well_typed ds good (SystemCall h name arguments) =
     (const_ok h \<and> well_typed_list ds good arguments \<and>
      (case arguments of
         [a] \<Rightarrow> name = ''$signed'' \<longrightarrow> bitstreamWidth (type_of a) = bitstreamWidth (expr_type h)
       | _ \<Rightarrow> True))"
| "well_typed ds good (SubroutineCall h kind formals retvar body arguments) =
     (const_ok h \<and> well_typed_list ds good arguments \<and> good body \<and>
      map_of ds retvar = Some (bitstreamWidth (expr_type h)) \<and>
      map (map_of ds) formals = map (\<lambda>a. Some (bitstreamWidth (type_of a))) arguments)"
| "well_typed ds good (OtherExpression h) = const_ok h"
| "well_typed_list ds good [] = True"
| "well_typed_list ds good (e # es) = (well_typed ds good e \<and> well_typed_list ds good es)"

text \<open>
  The module has a wire of the declared width for every declared symbol; the arguments
  bound in a context have the declared widths of their formals.
\<close>

definition wires_ok :: "decls \<Rightarrow> Module \<Rightarrow> bool" where
  "wires_ok ds m = list_all (\<lambda>(n, w). map_of ds n = Some w \<longrightarrow> map_of (wires m) n = Some w) ds"

definition bound_ok :: "decls \<Rightarrow> (nat \<times> SigSpec) list \<Rightarrow> bool" where
  "bound_ok ds bound = list_all (\<lambda>(n, sig). map_of ds n = Some (length sig)) bound"

definition args_ok :: "decls \<Rightarrow> ProcedureContext option \<Rightarrow> bool" where
  "args_ok ds cx = (case cx of None \<Rightarrow> True | Some c \<Rightarrow> bound_ok ds (args c))"

text \<open>
  A result is \<open>safe\<close> when it is not the failure of the width assertion and, if it is a
  value, the value satisfies the given condition. A body runner is fine when on good
  bodies it is safe and keeps the declared wires.
\<close>

definition safe :: "error + 'a \<Rightarrow> ('a \<Rightarrow> bool) \<Rightarrow> bool" where
  "safe r Q = (case r of Inl e \<Rightarrow> e \<noteq> WidthAssertionFailed | Inr x \<Rightarrow> Q x)"

definition run_ok :: "decls \<Rightarrow> ('f \<Rightarrow> bool) \<Rightarrow> 'f body_runner \<Rightarrow> bool" where
  "run_ok ds good run =
     (\<forall>body n bound m. good body \<longrightarrow> wires_ok ds m \<longrightarrow> bound_ok ds bound \<longrightarrow>
        safe (run body n bound m) (\<lambda>(stg, m'). wires_ok ds m'))"

definition post :: "decls \<Rightarrow> nat \<Rightarrow> SigSpec \<times> Module \<Rightarrow> bool" where
  "post ds w = (\<lambda>(sig, m'). length sig = w \<and> wires_ok ds m')"

section \<open>Procedural lowering\<close>

subsection \<open>The procedural visitor's state\<close>

datatype Mode = ALWAYS | FUNCTION

record ProceduralVisitor =
  module :: Module
  proc :: Process
  current_case :: nat
  ctx :: ProcedureContext
  assigned_blocking :: "SigBit set"
  assigned_nonblocking :: "SigBit set"
  print_priority :: int
  mode :: Mode
  staging :: sigdict

definition empty_case :: CaseRule where
  "empty_case = \<lparr>cr_compare = [], cr_actions = [], cr_switches = []\<rparr>"

definition empty_switch :: SwitchRule where
  "empty_switch = \<lparr>sw_signal = [], sw_cases = []\<rparr>"

text \<open>\<open>mod->addProcess(NEW_ID)\<close>: a process with an empty root case and no sync rules.\<close>

definition new_process :: "nat \<Rightarrow> Process" where
  "new_process n = \<lparr>proc_name = n, case_rules = (\<lambda>_. empty_case),
     switch_rules = (\<lambda>_. empty_switch), next_rule = 1, syncs = []\<rparr>"

definition root_case :: nat where
  "root_case = 0"

definition push_action :: "nat \<Rightarrow> SigSig \<Rightarrow> Process \<Rightarrow> Process" where
  "push_action c a p =
     p\<lparr>case_rules := (case_rules p)(c := (case_rules p c)\<lparr>cr_actions := cr_actions (case_rules p c) @ [a]\<rparr>)\<rparr>"

definition push_switch :: "nat \<Rightarrow> nat \<Rightarrow> Process \<Rightarrow> Process" where
  "push_switch c sw p =
     p\<lparr>case_rules := (case_rules p)(c := (case_rules p c)\<lparr>cr_switches := cr_switches (case_rules p c) @ [sw]\<rparr>)\<rparr>"

definition push_case :: "nat \<Rightarrow> nat \<Rightarrow> Process \<Rightarrow> Process" where
  "push_case sw c p =
     p\<lparr>switch_rules := (switch_rules p)(sw := (switch_rules p sw)\<lparr>sw_cases := sw_cases (switch_rules p sw) @ [c]\<rparr>)\<rparr>"

text \<open>\<open>new RTLIL::CaseRule\<close> and \<open>new RTLIL::SwitchRule\<close>: the next free address.\<close>

definition new_CaseRule :: "Process \<Rightarrow> nat \<times> Process" where
  "new_CaseRule p =
     (next_rule p, p\<lparr>case_rules := (case_rules p)(next_rule p := empty_case),
                       next_rule := Suc (next_rule p)\<rparr>)"

definition new_SwitchRule :: "Process \<Rightarrow> nat \<times> Process" where
  "new_SwitchRule p =
     (next_rule p, p\<lparr>switch_rules := (switch_rules p)(next_rule p := empty_switch),
                       next_rule := Suc (next_rule p)\<rparr>)"

text \<open>The visitor's constructor: a top switch in the root case with one case, the current one.\<close>

definition ProceduralVisitor_init :: "Module \<Rightarrow> Process \<Rightarrow> Mode \<Rightarrow> ProceduralVisitor" where
  "ProceduralVisitor_init m p md =
     (let (top_switch, p1) = new_SwitchRule p;
          p2 = push_switch root_case top_switch p1;
          (cc, p3) = new_CaseRule p2;
          p4 = push_case top_switch cc p3
      in \<lparr>module = m, proc = p4, current_case = cc,
          ctx = \<lparr>rvalue_subs = [], args = []\<rparr>,
          assigned_blocking = {}, assigned_nonblocking = {}, print_priority = 0,
          mode = md, staging = []\<rparr>)"

subsection \<open>Staging\<close>

text \<open>
  One fresh wire per chunk, its bits bound to the chunk's bits in the dictionary. The
  loop is shared by \<open>staging_signal\<close> (on the staging map) and by the switch builder's
  \<open>finish\<close> (on the substitution map, where it also records a default action).
\<close>

fun bind_fresh :: "SigSpec list \<Rightarrow> sigdict \<Rightarrow> Module \<Rightarrow> sigdict \<times> Module" where
  "bind_fresh [] d m = (d, m)"
| "bind_fresh (chunk # rest) d m =
     (let (w, m1) = addWire_new (length chunk) m
      in bind_fresh rest (dict_set_all chunk w d) m1)"

definition staging_signal :: "SigSpec \<Rightarrow> ProceduralVisitor \<Rightarrow> error + (SigSpec \<times> ProceduralVisitor)" where
  "staging_signal lvalue v =
     (if list_ex is_const_bit lvalue then Inl AssertionFailed
      else
        let to_create = filter (\<lambda>b. \<not> dict_count (staging v) b) lvalue;
            (st, m) = bind_fresh (chunks (sort_and_unify to_create)) (staging v) (module v);
            v1 = v\<lparr>module := m, staging := st\<rparr>
        in Inr (replace st lvalue, v1))"

text \<open>
  The commit: per chunk of staged bits, every sync rule gets the action that loads the
  original bits from their staging bits, and the root case the action that gives the
  staging bits the original bits' value.
\<close>

definition push_sync_action :: "SigSig \<Rightarrow> SyncRule \<Rightarrow> SyncRule" where
  "push_sync_action a r = r\<lparr>sync_actions := sync_actions r @ [a]\<rparr>"

fun commit_chunks :: "sigdict \<Rightarrow> SigSpec list \<Rightarrow> Process \<Rightarrow> Process" where
  "commit_chunks st [] p = p"
| "commit_chunks st (chunk # rest) p =
     (let mapped = replace st chunk;
          p1 = p\<lparr>syncs := map (push_sync_action (chunk, mapped)) (syncs p)\<rparr>;
          p2 = push_action root_case (mapped, chunk) p1
      in commit_chunks st rest p2)"

definition staging_done :: "ProceduralVisitor \<Rightarrow> ProceduralVisitor" where
  "staging_done v =
     (let all_driven = sort_and_unify (map fst (dict_items (staging v)))
      in v\<lparr>proc := commit_chunks (staging v) (chunks all_driven) (proc v)\<rparr>)"

subsection \<open>The end of an assignment\<close>

text \<open>The bit pools record wire bits only, and only wire bits are looked up in them.\<close>

definition pool_check_any :: "SigBit set \<Rightarrow> SigSpec \<Rightarrow> bool" where
  "pool_check_any pool sig = list_ex (\<lambda>b. \<not> is_const_bit b \<and> b \<in> pool) sig"

definition pool_add :: "SigSpec \<Rightarrow> SigBit set \<Rightarrow> SigBit set" where
  "pool_add sig pool = pool \<union> set (filter (\<lambda>b. \<not> is_const_bit b) sig)"

text \<open>
  What an assignment statement does once the target bits and the value to store are
  known: a blocking assignment updates the substitutions; either kind checks the pool
  of the other kind, joins its own, and emits the action on the staging bits.
\<close>

definition commit_assignment ::
  "bool \<Rightarrow> SigSpec \<Rightarrow> SigSpec \<Rightarrow> ProceduralVisitor \<Rightarrow> error + ProceduralVisitor" where
  "commit_assignment blocking lvalue masked_rvalue v =
     (if length lvalue \<noteq> length masked_rvalue then Inl AssertionFailed
      else
        ebind
          (if blocking then
             (let v1 = v\<lparr>ctx := (ctx v)\<lparr>rvalue_subs :=
                          dict_set_all lvalue masked_rvalue (rvalue_subs (ctx v))\<rparr>\<rparr>
              in if pool_check_any (assigned_nonblocking v1) lvalue then Inl AssertionFailed
                 else Inr (v1\<lparr>assigned_blocking := pool_add lvalue (assigned_blocking v1)\<rparr>))
           else
             (if pool_check_any (assigned_blocking v) lvalue then Inl AssertionFailed
              else Inr (v\<lparr>assigned_nonblocking := pool_add lvalue (assigned_nonblocking v)\<rparr>)))
          (\<lambda>v2. ebind (staging_signal lvalue v2)
             (\<lambda>(target, v3).
                Inr (v3\<lparr>proc := push_action (current_case v3) (target, masked_rvalue) (proc v3)\<rparr>))))"

subsection \<open>The switch builder\<close>

record SwitchBuilder =
  parent :: nat
  sw :: nat
  rvalue_subs_save :: sigdict
  branch_updates :: "(nat \<times> SigSig) list"

definition SwitchBuilder_init :: "nat \<Rightarrow> SigSpec \<Rightarrow> ProceduralVisitor \<Rightarrow> SwitchBuilder \<times> ProceduralVisitor" where
  "SwitchBuilder_init par sig v =
     (let (s, p1) = new_SwitchRule (proc v);
          p2 = p1\<lparr>switch_rules := (switch_rules p1)(s := (switch_rules p1 s)\<lparr>sw_signal := sig\<rparr>)\<rparr>;
          p3 = push_switch par s p2
      in (\<lparr>parent = par, sw = s, rvalue_subs_save = rvalue_subs (ctx v), branch_updates = []\<rparr>,
          v\<lparr>proc := p3\<rparr>))"

text \<open>The keys whose entry is new or differs from the saved one.\<close>

definition changed_keys :: "sigdict \<Rightarrow> sigdict \<Rightarrow> SigSpec" where
  "changed_keys save cur =
     map fst (filter (\<lambda>(k, x). \<not> dict_count save k \<or> x \<noteq> dict_at save k) (dict_items cur))"

text \<open>What \<open>branch\<close> does before it calls back: a new case rule under the switch.\<close>

definition branch_enter :: "SwitchBuilder \<Rightarrow> SigSpec list \<Rightarrow> ProceduralVisitor \<Rightarrow> nat \<times> ProceduralVisitor" where
  "branch_enter b compare v =
     (let (case_rule, p1) = new_CaseRule (proc v);
          p2 = push_case (sw b) case_rule p1;
          p3 = p2\<lparr>case_rules := (case_rules p2)(case_rule := (case_rules p2 case_rule)\<lparr>cr_compare := compare\<rparr>)\<rparr>
      in (case_rule, v\<lparr>proc := p3\<rparr>))"

definition branch ::
  "SwitchBuilder \<Rightarrow> SigSpec list \<Rightarrow> (nat \<Rightarrow> ProceduralVisitor \<Rightarrow> error + ProceduralVisitor)
     \<Rightarrow> ProceduralVisitor \<Rightarrow> error + (SwitchBuilder \<times> ProceduralVisitor)" where
  "branch b compare f v =
     (let (case_rule, v0) = branch_enter b compare v
      in ebind (f case_rule v0)
           (\<lambda>v1.
              let update = sort_bits (changed_keys (rvalue_subs_save b) (rvalue_subs (ctx v1)));
                  update_map = replace (rvalue_subs (ctx v1)) update
              in Inr (b\<lparr>branch_updates := branch_updates b @ [(case_rule, (update, update_map))]\<rparr>,
                      v1\<lparr>ctx := (ctx v1)\<lparr>rvalue_subs := rvalue_subs_save b\<rparr>\<rparr>)))"

text \<open>The first loop of \<open>finish\<close>: a fresh wire and a default action per chunk.\<close>

fun finish_defaults :: "nat \<Rightarrow> SigSpec list \<Rightarrow> ProceduralVisitor \<Rightarrow> ProceduralVisitor" where
  "finish_defaults par [] v = v"
| "finish_defaults par (chunk # rest) v =
     (let (w, m1) = addWire_new (length chunk) (module v);
          w_default = replace (rvalue_subs (ctx v)) chunk;
          p1 = push_action par (w, w_default) (proc v)
      in finish_defaults par rest
           (v\<lparr>module := m1, proc := p1,
              ctx := (ctx v)\<lparr>rvalue_subs := dict_set_all chunk w (rvalue_subs (ctx v))\<rparr>\<rparr>))"

text \<open>The inner loop of the second: one action per chunk of a branch's target.\<close>

fun branch_actions :: "sigdict \<Rightarrow> SigSpec list \<Rightarrow> SigSpec \<Rightarrow> nat \<Rightarrow> SigSig list" where
  "branch_actions subs [] source done = []"
| "branch_actions subs (chunk # rest) source done =
     (replace subs chunk, take (length chunk) (drop done source))
       # branch_actions subs rest source (done + length chunk)"

fun finish_branches :: "(nat \<times> SigSig) list \<Rightarrow> ProceduralVisitor \<Rightarrow> ProceduralVisitor" where
  "finish_branches [] v = v"
| "finish_branches ((rule, (target, source)) # rest) v =
     finish_branches rest
       (v\<lparr>proc := fold (push_action rule)
                       (branch_actions (rvalue_subs (ctx v)) (chunks target) source 0) (proc v)\<rparr>)"

definition finish :: "SwitchBuilder \<Rightarrow> ProceduralVisitor \<Rightarrow> ProceduralVisitor" where
  "finish b v =
     (let updated_anybranch = sort_and_unify (concat (map (\<lambda>br. fst (snd br)) (branch_updates b)));
          v1 = finish_defaults (parent b) (chunks updated_anybranch) v
      in finish_branches (branch_updates b) v1)"

subsection \<open>Lowering an assignment target\<close>

text \<open>
  The constant of a select's index as a machine integer: none if a bit is undefined
  or the value does not fit 32 bits.
\<close>

definition svint_as_int :: "bool \<Rightarrow> Const \<Rightarrow> int option" where
  "svint_as_int is_signed c =
     (case const2big c is_signed of
        (n, undef) \<Rightarrow>
          if undef \<or> n < - (2 ^ 31) \<or> n \<ge> 2 ^ 31 then None else Some n)"

text \<open>An unsigned 32-bit product passed where a signed 32-bit offset is expected.\<close>

definition as_int32 :: "int \<Rightarrow> int" where
  "as_int32 x = (let y = x mod 2 ^ 32 in if y \<ge> 2 ^ 31 then y - 2 ^ 32 else y)"

definition lhs_check :: "ExprInfo \<Rightarrow> SigSpec \<Rightarrow> error + SigSpec" where
  "lhs_check h ret =
     (if \<not> isFixedSize (expr_type h) then Inl AssertionFailed
      else if length ret \<noteq> bitstreamWidth (expr_type h) then Inl AssertionFailed
      else Inr ret)"

fun evaluate_lhs :: "Module \<Rightarrow> 'f Expression \<Rightarrow> error + SigSpec"
  and evaluate_lhs_list :: "Module \<Rightarrow> 'f Expression list \<Rightarrow> error + SigSpec list"
where
  "evaluate_lhs m (NamedValue h symb) =
     (case wire m (sym_name symb) of
        None \<Rightarrow> Inl AssertionFailed
      | Some w \<Rightarrow> lhs_check h w)"
| "evaluate_lhs m (RangeSelect h kind val left right) =
     (if kind \<noteq> Simple then Inl Unimplemented
      else case (left, right) of
        (Some l, Some r) \<Rightarrow>
          (case fixedRange (type_of val) of
             None \<Rightarrow> Inl Unimplemented
           | Some rng \<Rightarrow>
               let raw_left = translateIndex rng l;
                   raw_right = translateIndex rng r
               in if int (bitstreamWidth (type_of val)) mod range_width rng \<noteq> 0
                  then Inl AssertionFailed
                  else
                    let stride = int (bitstreamWidth (type_of val)) div range_width rng
                    in ebind (evaluate_lhs m val)
                         (\<lambda>sig. ebind (sig_extract sig (raw_right * stride)
                                         (stride * (raw_left - raw_right + 1)))
                                  (lhs_check h)))
      | _ \<Rightarrow> Inl Unimplemented)"
| "evaluate_lhs m (Concatenation h operands) =
     ebind (evaluate_lhs_list m operands) (\<lambda>sigs. lhs_check h (concat (rev sigs)))"
| "evaluate_lhs m (ElementSelect h val selector) =
     (case expr_constant (info selector) of
        None \<Rightarrow> Inl Unimplemented
      | Some cv \<Rightarrow>
          (case (isArray (type_of val), fixedRange (type_of val)) of
             (True, Some rng) \<Rightarrow>
               (case cv of
                  CVOther \<Rightarrow> Inl Exception
                | CVInteger c \<Rightarrow>
                    (case svint_as_int (isSigned (type_of selector)) c of
                       None \<Rightarrow> Inl Exception
                     | Some idx \<Rightarrow>
                         let stride = int (bitstreamWidth (expr_type h));
                             raw_idx = translateIndex rng idx mod 2 ^ 32
                         in ebind (evaluate_lhs m val)
                              (\<lambda>sig. ebind (sig_extract sig (as_int32 (stride * raw_idx)) stride)
                                       (lhs_check h))))
           | _ \<Rightarrow> Inl Unimplemented))"
| "evaluate_lhs m (MemberAccess h val member) =
     (case member of
        Field bitOffset \<Rightarrow>
          ebind (evaluate_lhs m val)
            (\<lambda>sig. sig_extract sig (int bitOffset) (int (bitstreamWidth (expr_type h))))
      | _ \<Rightarrow> Inl Unimplemented)"
| "evaluate_lhs m e = Inl Unimplemented"
| "evaluate_lhs_list m [] = Inr []"
| "evaluate_lhs_list m (e # es) =
     ebind (evaluate_lhs m e) (\<lambda>sig. ebind (evaluate_lhs_list m es) (\<lambda>sigs. Inr (sig # sigs)))"


text \<open>
  \<open>crop_zero_mask\<close> walks the mask from its top bit down and removes from the target
  every position at which the mask is the constant 0.
\<close>

fun crop_from :: "nat \<Rightarrow> SigSpec \<Rightarrow> SigSpec \<Rightarrow> error + SigSpec" where
  "crop_from 0 msk target = Inr target"
| "crop_from (Suc i) msk target =
     (if msk ! i = Bit S0 then
        (if i < length target then crop_from i msk (take i target @ drop (Suc i) target)
         else Inl AssertionFailed)
      else crop_from i msk target)"

definition crop_zero_mask :: "SigSpec \<Rightarrow> SigSpec \<Rightarrow> error + SigSpec" where
  "crop_zero_mask msk target = crop_from (length msk) msk target"

definition module_Demux :: "SigSpec \<Rightarrow> SigSpec \<Rightarrow> Module \<Rightarrow> SigSpec \<times> Module" where
  "module_Demux a sel m =
     (let n = autoidx m;
          (y, m2) = addWire_new (length a * 2 ^ length sel) (m\<lparr>autoidx := Suc n\<rparr>);
          c = \<lparr>cell_name = n, cell_type = ''$demux'',
               connections = [''A'' \<mapsto> a, ''S'' \<mapsto> sel, ''Y'' \<mapsto> y],
               parameters = [''WIDTH'' \<mapsto> PInt (int (length a)),
                             ''S_WIDTH'' \<mapsto> PInt (int (length sel))]\<rparr>
      in (y, m2\<lparr>cells := cells m2 @ [c]\<rparr>))"

definition module_Bwmux :: "SigSpec \<Rightarrow> SigSpec \<Rightarrow> SigSpec \<Rightarrow> Module \<Rightarrow> SigSpec \<times> Module" where
  "module_Bwmux a b sel m =
     (let n = autoidx m;
          (y, m2) = addWire_new (length a) (m\<lparr>autoidx := Suc n\<rparr>);
          c = \<lparr>cell_name = n, cell_type = ''$bwmux'',
               connections = [''A'' \<mapsto> a, ''B'' \<mapsto> b, ''S'' \<mapsto> sel, ''Y'' \<mapsto> y],
               parameters = [''WIDTH'' \<mapsto> PInt (int (length a))]\<rparr>
      in (y, m2\<lparr>cells := cells m2 @ [c]\<rparr>))"

text \<open>
  After each round of the etching loop the mask must be as wide as the expression the
  loop has arrived at, and so must the padded value.
\<close>

definition etch_check ::
  "'f Expression \<Rightarrow> SigSpec \<Rightarrow> SigSpec \<Rightarrow> error + unit" where
  "etch_check raw_lexpr raw_mask raw_rvalue =
     (if length raw_mask \<noteq> bitstreamWidth (type_of raw_lexpr) then Inl Unimplemented
      else if length raw_rvalue \<noteq> bitstreamWidth (type_of raw_lexpr) then Inl AssertionFailed
      else Inr ())"

fun etch ::
  "'f body_runner \<Rightarrow> ProcedureContext \<Rightarrow> 'f Expression \<Rightarrow> SigSpec \<Rightarrow> SigSpec \<Rightarrow> Module
     \<Rightarrow> error + ('f Expression \<times> SigSpec \<times> SigSpec) \<times> Module" where
  "etch run cx (RangeSelect h kind val left right) raw_mask raw_rvalue m =
     (if kind \<noteq> Simple then Inl Unimplemented
      else case (left, right) of
        (Some l, Some r) \<Rightarrow>
          (case fixedRange (type_of val) of
             None \<Rightarrow> Inl Unimplemented
           | Some rng \<Rightarrow>
               let raw_left = translateIndex rng l;
                   raw_right = translateIndex rng r
               in if int (bitstreamWidth (type_of val)) mod range_width rng \<noteq> 0
                  then Inl AssertionFailed
                  else
                    let stride = nat (int (bitstreamWidth (type_of val)) div range_width rng);
                        above = nat (range_width rng - raw_left - 1) * stride;
                        below = nat raw_right * stride;
                        mask1 = replicate below (Bit S0) @ raw_mask @ replicate above (Bit S0);
                        rvalue1 = replicate below (Bit Sx) @ raw_rvalue @ replicate above (Bit Sx)
                    in ebind (etch_check val mask1 rvalue1)
                         (\<lambda>_. etch run cx val mask1 rvalue1 m))
      | _ \<Rightarrow> Inl Unimplemented)"
| "etch run cx (ElementSelect h val selector) raw_mask raw_rvalue m =
     (case (isArray (type_of val), fixedRange (type_of val)) of
        (True, Some rng) \<Rightarrow>
          let stride = bitstreamWidth (expr_type h)
          in ebind (evaluate_rhs run (Some cx) selector m)
               (\<lambda>(idx, m1).
                  let ((raw_idx, valid), m2) =
                        translate_index_sig (isSigned (type_of selector)) rng idx m1;
                      (demuxed, m3) = module_Demux raw_mask raw_idx m2;
                      mask1 = extend_u0 demuxed (stride * nat (range_width rng)) False;
                      rvalue1 = concat (replicate (nat (range_width rng)) raw_rvalue)
                  in ebind (etch_check val mask1 rvalue1)
                       (\<lambda>_. etch run cx val mask1 rvalue1 m3))
      | _ \<Rightarrow> Inl Unimplemented)"
| "etch run cx (MemberAccess h val member) raw_mask raw_rvalue m =
     (case member of
        Field bitOffset \<Rightarrow>
          let pad = nat (int (bitstreamWidth (type_of val)) - int (bitstreamWidth (expr_type h))
                           - int bitOffset);
              mask1 = replicate bitOffset (Bit S0) @ raw_mask @ replicate pad (Bit S0);
              rvalue1 = replicate bitOffset (Bit Sx) @ raw_rvalue @ replicate pad (Bit Sx)
          in ebind (etch_check val mask1 rvalue1)
               (\<lambda>_. etch run cx val mask1 rvalue1 m)
      | _ \<Rightarrow> Inl Unimplemented)"
| "etch run cx e raw_mask raw_rvalue m =
     ebind (etch_check e raw_mask raw_rvalue) (\<lambda>_. Inr ((e, raw_mask, raw_rvalue), m))"

text \<open>The assignment statement: value, target, mask, and then the end modelled above.\<close>

definition handle_assignment ::
  "'f body_runner \<Rightarrow> bool \<Rightarrow> 'f Expression \<Rightarrow> 'f Expression \<Rightarrow> ProceduralVisitor
     \<Rightarrow> error + ProceduralVisitor" where
  "handle_assignment run non_blocking left right v =
     ebind (evaluate_rhs run (Some (ctx v)) right (module v))
       (\<lambda>(rvalue, m1).
          ebind (etch run (ctx v) left (replicate (length rvalue) (Bit S1)) rvalue m1)
            (\<lambda>((raw_lexpr, raw_mask, raw_rvalue), m2).
               ebind (evaluate_lhs m2 raw_lexpr)
                 (\<lambda>lvalue0. ebind (crop_zero_mask raw_mask lvalue0)
                    (\<lambda>lvalue. ebind (crop_zero_mask raw_mask raw_rvalue)
                       (\<lambda>cropped_rvalue. ebind (crop_zero_mask raw_mask raw_mask)
                          (\<lambda>msk.
                             let (masked_rvalue, m3) =
                                   (if is_fully_ones msk then (cropped_rvalue, m2)
                                    else module_Bwmux (replace (rvalue_subs (ctx v)) lvalue)
                                           cropped_rvalue msk m2)
                             in commit_assignment (\<not> non_blocking) lvalue masked_rvalue
                                  (v\<lparr>module := m3\<rparr>)))))))"



subsection \<open>Statements\<close>

datatype EdgeKind = NoEdge | PosEdge | NegEdge | BothEdges

datatype 'f TimingControl =
    SignalEvent EdgeKind "'f Expression" bool
  | ImplicitEvent
  | EventList "'f TimingControl list"
  | OtherTiming

datatype 'f DisplayArg = StringLiteralArg string | ValueArg "'f Expression"

text \<open>
  An expression statement is an assignment (nonblocking or not, target, value), a call
  by name with its arguments, or something else. A block is sequential or not. A
  conditional has its conditions (each with or without a pattern) and its branches; a
  case statement is of the normal kind or not and has its selector, its items and its
  default.
\<close>

datatype 'f Statement =
    AssignmentStatement bool "'f Expression" "'f Expression"
  | CallStatement string "'f DisplayArg list"
  | OtherExpressionStatement
  | BlockStatement bool "'f Statement"
  | StatementList "'f Statement list"
  | ConditionalStatement "('f Expression \<times> bool) list" "'f Statement" "'f Statement option"
  | CaseStatement bool "'f Expression" "('f Expression list \<times> 'f Statement) list"
      "'f Statement option"
  | TimedStatement "'f TimingControl" "'f Statement"
  | InvalidStatement
  | EmptyStatement
  | VariableDeclStatement
  | OtherStatement

subsection \<open>The statement handlers\<close>

text \<open>
  The trigger of a \<open>$print\<close> cell, read off the process's sync rules: edge rules give
  a trigger bit and its polarity, the implicit rule gives none, any other rule aborts.
\<close>

fun scan_triggers :: "SyncRule list \<Rightarrow> error + bool \<times> SigSpec \<times> Const" where
  "scan_triggers [] = Inr (False, [], [])"
| "scan_triggers (r # rs) =
     (if sync_type r = STn \<or> sync_type r = STp then
        (if length (sync_signal r) \<noteq> 1 then Inl AssertionFailed
         else ebind (scan_triggers rs)
                (\<lambda>(implicit, triggers, polarity).
                   Inr (implicit, sync_signal r @ triggers,
                        (if sync_type r = STp then S1 else S0) # polarity)))
      else if sync_type r = STa then
        ebind (scan_triggers rs) (\<lambda>(implicit, triggers, polarity). Inr (True, triggers, polarity))
      else Inl Aborted)"

definition context_enable :: "ProceduralVisitor \<Rightarrow> SigSpec \<times> ProceduralVisitor" where
  "context_enable v =
     (let (ret, m1) = addWire_new 1 (module v);
          p1 = push_action root_case (ret, [Bit S0]) (proc v);
          p2 = push_action (current_case v) (ret, [Bit S1]) p1
      in (ret, v\<lparr>module := m1, proc := p2\<rparr>))"

text \<open>The arguments of \<open>$display\<close> that are lowered: all but strings and time calls.\<close>

fun display_args ::
  "'f body_runner \<Rightarrow> ProcedureContext \<Rightarrow> 'f DisplayArg list \<Rightarrow> Module
     \<Rightarrow> error + SigSpec list \<times> Module" where
  "display_args run cx [] m = Inr ([], m)"
| "display_args run cx (StringLiteralArg str # rest) m = display_args run cx rest m"
| "display_args run cx (ValueArg e # rest) m =
     (if (case e of SystemCall h name es \<Rightarrow> name = ''$time'' \<or> name = ''$realtime''
                  | _ \<Rightarrow> False)
      then display_args run cx rest m
      else ebind (evaluate_rhs run (Some cx) e m)
             (\<lambda>(sig, m1). ebind (display_args run cx rest m1)
                (\<lambda>(sigs, m2). Inr (sig # sigs, m2))))"

text \<open>
  \<open>$display\<close>: a \<open>$print\<close> cell with its trigger, an enable for the current case,
  the next lower priority and the lowered arguments. The format text is the library's
  business and is left out.
\<close>

definition handle_display ::
  "'f body_runner \<Rightarrow> 'f DisplayArg list \<Rightarrow> ProceduralVisitor \<Rightarrow> error + ProceduralVisitor" where
  "handle_display run arguments v =
     (let n = autoidx (module v);
          v1 = v\<lparr>module := (module v)\<lparr>autoidx := Suc n\<rparr>\<rparr>
      in ebind (scan_triggers (syncs (proc v1)))
           (\<lambda>(implicit, triggers, polarity).
              if triggers = [] \<and> \<not> implicit then Inl AssertionFailed
              else if triggers \<noteq> [] \<and> implicit then Inl AssertionFailed
              else
                let (en, v2) = context_enable v1;
                    v3 = v2\<lparr>print_priority := print_priority v2 - 1\<rparr>
                in ebind (display_args run (ctx v3) arguments (module v3))
                     (\<lambda>(sigs, m1).
                        let c = \<lparr>cell_name = n, cell_type = ''$print'',
                                 connections = [''TRG'' \<mapsto> triggers, ''EN'' \<mapsto> en,
                                                ''ARGS'' \<mapsto> concat sigs],
                                 parameters = [''TRG_ENABLE'' \<mapsto> PBool (\<not> implicit),
                                   ''TRG_WIDTH'' \<mapsto> PInt (int (length triggers)),
                                   ''TRG_POLARITY'' \<mapsto> PConst polarity,
                                   ''PRIORITY'' \<mapsto> PInt (print_priority v3)]\<rparr>
                        in Inr (v3\<lparr>module := m1\<lparr>cells := cells m1 @ [c]\<rparr>\<rparr>))))"

text \<open>
  After a conditional or a case statement the visitor descends into a new empty switch
  under the case it was in, so that later actions take priority.
\<close>

definition descend :: "nat \<Rightarrow> ProceduralVisitor \<Rightarrow> ProceduralVisitor" where
  "descend case_save v =
     (let (dummy_switch, p1) = new_SwitchRule (proc v);
          p2 = push_switch case_save dummy_switch p1;
          (cc, p3) = new_CaseRule p2;
          p4 = push_case dummy_switch cc p3
      in v\<lparr>proc := p4, current_case := cc\<rparr>)"

lemma branch_cong [fundef_cong]:
  "b = b' \<Longrightarrow> c = c' \<Longrightarrow> v = v' \<Longrightarrow> (\<And>rule vv. f rule vv = f' rule vv)
     \<Longrightarrow> branch b c f v = branch b' c' f' v'"
  by (simp add: branch_def cong: if_cong)

text \<open>The compare signals of a case item: each as wide as the selector.\<close>

fun evaluate_compares ::
  "'f body_runner \<Rightarrow> ProcedureContext \<Rightarrow> nat \<Rightarrow> 'f Expression list \<Rightarrow> Module
     \<Rightarrow> error + SigSpec list \<times> Module" where
  "evaluate_compares run cx width [] m = Inr ([], m)"
| "evaluate_compares run cx width (e # es) m =
     ebind (evaluate_rhs run (Some cx) e m)
       (\<lambda>(compare, m1).
          if length compare \<noteq> width then Inl AssertionFailed
          else ebind (evaluate_compares run cx width es m1)
                 (\<lambda>(rest, m2). Inr (compare # rest, m2)))"

fun visit :: "'f body_runner \<Rightarrow> 'f Statement \<Rightarrow> ProceduralVisitor \<Rightarrow> error + ProceduralVisitor"
  and visit_list :: "'f body_runner \<Rightarrow> 'f Statement list \<Rightarrow> ProceduralVisitor \<Rightarrow> error + ProceduralVisitor"
  and visit_items ::
      "'f body_runner \<Rightarrow> nat \<Rightarrow> ('f Expression list \<times> 'f Statement) list \<Rightarrow> SwitchBuilder
         \<Rightarrow> ProceduralVisitor \<Rightarrow> error + SwitchBuilder \<times> ProceduralVisitor"
where
  "visit run (AssignmentStatement non_blocking left right) v =
     handle_assignment run non_blocking left right v"
| "visit run (CallStatement name arguments) v =
     (if name = ''empty_statement'' then Inr v
      else if name = ''$display'' then handle_display run arguments v
      else Inl Unimplemented)"
| "visit run OtherExpressionStatement v = Inl Unimplemented"
| "visit run (BlockStatement sequential body) v =
     (if \<not> sequential then Inl Unimplemented else visit run body v)"
| "visit run (StatementList stmts) v = visit_list run stmts v"
| "visit run (ConditionalStatement [(cond, has_pattern)] ifTrue ifFalse) v =
     (if has_pattern then Inl Unimplemented
      else
        let case_save = current_case v
        in ebind (evaluate_rhs run (Some (ctx v)) cond (module v))
             (\<lambda>(c, m1).
                let (condition, m2) = unary_cell ''$reduce_bool'' c False 1 m1;
                    (b, v1) = SwitchBuilder_init (current_case v) condition (v\<lparr>module := m2\<rparr>)
                in ebind (branch b [[Bit S1]]
                            (\<lambda>rule vv. visit run ifTrue (vv\<lparr>current_case := rule\<rparr>)) v1)
                     (\<lambda>(b1, v2).
                        ebind (case ifFalse of
                                 None \<Rightarrow> Inr (b1, v2)
                               | Some stmt \<Rightarrow>
                                   branch b1 []
                                     (\<lambda>rule vv. visit run stmt (vv\<lparr>current_case := rule\<rparr>)) v2)
                          (\<lambda>(b2, v3). Inr (descend case_save (finish b2 v3))))))"
| "visit run (ConditionalStatement conds ifTrue ifFalse) v = Inl Unimplemented"
| "visit run (CaseStatement normal selector items dflt) v =
     (if \<not> normal then Inl Unimplemented
      else
        let case_save = current_case v
        in ebind (evaluate_rhs run (Some (ctx v)) selector (module v))
             (\<lambda>(dispatch, m1).
                let (b, v1) = SwitchBuilder_init (current_case v) dispatch (v\<lparr>module := m1\<rparr>)
                in ebind (visit_items run (length dispatch) items b v1)
                     (\<lambda>(b1, v2).
                        ebind (case dflt of
                                 None \<Rightarrow> Inr (b1, v2)
                               | Some stmt \<Rightarrow>
                                   branch b1 []
                                     (\<lambda>rule vv. visit run stmt (vv\<lparr>current_case := rule\<rparr>)) v2)
                          (\<lambda>(b2, v3). Inr (descend case_save (finish b2 v3))))))"
| "visit run (TimedStatement timing stmt) v = Inl Unimplemented"
| "visit run InvalidStatement v = Inl Aborted"
| "visit run EmptyStatement v = Inr v"
| "visit run VariableDeclStatement v = Inr v"
| "visit run OtherStatement v = Inl Unimplemented"
| "visit_list run [] v = Inr v"
| "visit_list run (stmt # rest) v = ebind (visit run stmt v) (visit_list run rest)"
| "visit_items run width [] b v = Inr (b, v)"
| "visit_items run width ((exprs, stmt) # rest) b v =
     ebind (evaluate_compares run (ctx v) width exprs (module v))
       (\<lambda>(compares, m1).
          if compares = [] then Inl Unimplemented
          else ebind (branch b compares
                        (\<lambda>rule vv. visit run stmt (vv\<lparr>current_case := rule\<rparr>))
                        (v\<lparr>module := m1\<rparr>))
                 (\<lambda>(b1, v1). visit_items run width rest b1 v1))"

subsection \<open>Timing controls and procedural blocks\<close>

text \<open>
  The sync rules of an \<open>always\<close> or \<open>always_ff\<close> block, one per event of its timing
  control. A signal event without an edge becomes the implicit rule; an edge event needs
  a one-bit signal. The result says whether the timing control is of a supported kind.
\<close>

fun populate_sync ::
      "'f body_runner \<Rightarrow> 'f TimingControl \<Rightarrow> Process \<Rightarrow> Module \<Rightarrow> error + bool \<times> Process \<times> Module"
  and populate_sync_list ::
      "'f body_runner \<Rightarrow> 'f TimingControl list \<Rightarrow> Process \<Rightarrow> Module
         \<Rightarrow> error + bool \<times> Process \<times> Module"
where
  "populate_sync run (SignalEvent edge e has_iff) p m =
     ebind (evaluate_rhs run None e m)
       (\<lambda>(sig, m1).
          if has_iff then Inl Unimplemented
          else case edge of
            NoEdge \<Rightarrow>
              Inr (True, p\<lparr>syncs := syncs p @
                     [\<lparr>sync_type = STa, sync_signal = [], sync_actions = []\<rparr>]\<rparr>, m1)
          | PosEdge \<Rightarrow>
              if length sig \<noteq> 1 then Inl Unimplemented
              else Inr (True, p\<lparr>syncs := syncs p @
                     [\<lparr>sync_type = STp, sync_signal = sig, sync_actions = []\<rparr>]\<rparr>, m1)
          | NegEdge \<Rightarrow>
              if length sig \<noteq> 1 then Inl Unimplemented
              else Inr (True, p\<lparr>syncs := syncs p @
                     [\<lparr>sync_type = STn, sync_signal = sig, sync_actions = []\<rparr>]\<rparr>, m1)
          | BothEdges \<Rightarrow>
              if length sig \<noteq> 1 then Inl Unimplemented
              else Inr (True, p\<lparr>syncs := syncs p @
                     [\<lparr>sync_type = STe, sync_signal = sig, sync_actions = []\<rparr>]\<rparr>, m1))"
| "populate_sync run ImplicitEvent p m =
     Inr (True, p\<lparr>syncs := syncs p @
            [\<lparr>sync_type = STa, sync_signal = [], sync_actions = []\<rparr>]\<rparr>, m)"
| "populate_sync run (EventList events) p m = populate_sync_list run events p m"
| "populate_sync run OtherTiming p m = Inr (False, p, m)"
| "populate_sync_list run [] p m = Inr (True, p, m)"
| "populate_sync_list run (ev # rest) p m =
     ebind (populate_sync run ev p m)
       (\<lambda>(ok, p1, m1). if \<not> ok then Inr (False, p1, m1) else populate_sync_list run rest p1 m1)"

text \<open>
  The process a finished visitor has built joins the module's processes.
\<close>

definition add_process :: "ProceduralVisitor \<Rightarrow> Module" where
  "add_process v = (module v)\<lparr>processes := processes (module v) @ [proc v]\<rparr>"

text \<open>
  Inlining a function call: a visitor in function mode on a new process, with the
  evaluated arguments bound, run over the body. Calls inside the body are inlined by
  the runner one level down.
\<close>

definition evaluate_function :: "'g body_runner \<Rightarrow> ('g Statement) body_runner" where
  "evaluate_function run body n bound m =
     (let v0 = ProceduralVisitor_init m (new_process n) FUNCTION;
          v1 = v0\<lparr>ctx := (ctx v0)\<lparr>args := bound\<rparr>\<rparr>
      in ebind (visit run body v1) (\<lambda>v2. Inr (staging v2, add_process v2)))"

datatype ProceduralBlockKind = Initial | Final | Always | AlwaysComb | AlwaysLatch | AlwaysFF

definition handle_ProceduralBlockSymbol ::
  "'f body_runner \<Rightarrow> ProceduralBlockKind \<Rightarrow> 'f Statement \<Rightarrow> Module \<Rightarrow> error + Module" where
  "handle_ProceduralBlockSymbol run kind body m =
     (let timed =
        (let p = new_process (autoidx m);
             m1 = m\<lparr>autoidx := Suc (autoidx m)\<rparr>
         in case body of
              TimedStatement timing stmt \<Rightarrow>
                ebind (populate_sync run timing p m1)
                  (\<lambda>(ok, p1, m2).
                     if \<not> ok then Inl Unimplemented
                     else ebind (visit run stmt (ProceduralVisitor_init m2 p1 ALWAYS))
                            (\<lambda>v. Inr (add_process (staging_done v))))
            | _ \<Rightarrow> Inl Unimplemented)
      in case kind of
        Always \<Rightarrow> timed
      | AlwaysFF \<Rightarrow> timed
      | AlwaysComb \<Rightarrow>
          (let p = (new_process (autoidx m))
                     \<lparr>syncs := [\<lparr>sync_type = STa, sync_signal = [], sync_actions = []\<rparr>]\<rparr>;
               m1 = m\<lparr>autoidx := Suc (autoidx m)\<rparr>
           in ebind (visit run body (ProceduralVisitor_init m1 p ALWAYS))
                (\<lambda>v. Inr (add_process (staging_done v))))
      | Initial \<Rightarrow> Inl Unimplemented
      | Final \<Rightarrow> Inr m
      | AlwaysLatch \<Rightarrow> Inl Unimplemented)"

subsection \<open>Reading actions bit by bit\<close>

text \<open>
  An action assigns a source signal to a target signal of the same width. Its bit pairs
  (target bit, source bit) say which bit is loaded from which.
\<close>

definition action_bits :: "SigSig list \<Rightarrow> (SigBit \<times> SigBit) list" where
  "action_bits acts = concat (map (\<lambda>(l, r). zip l r) acts)"

subsection \<open>What the switch builder's merge amounts to\<close>


definition finish_chunks :: "SwitchBuilder \<Rightarrow> SigSpec list" where
  "finish_chunks b = chunks (sort_and_unify (concat (map (\<lambda>br. fst (snd br)) (branch_updates b))))"



text \<open>
  The calls of \<open>branch\<close> between a builder's construction and its \<open>finish\<close>, one per
  pair of compare values and body, each on the builder and the state the one before
  returned. What a branch has recorded for its case rule fits a snapshot when the body
  started from the snapshot and the recorded bits are the keys the body left with an
  entry that is new or differs from the snapshot, each once, with the values the body
  left for them.
\<close>

fun branches ::
  "SwitchBuilder \<Rightarrow> (SigSpec list \<times> (nat \<Rightarrow> ProceduralVisitor \<Rightarrow> error + ProceduralVisitor)) list
     \<Rightarrow> ProceduralVisitor \<Rightarrow> error + SwitchBuilder \<times> ProceduralVisitor" where
  "branches b [] v = Inr (b, v)"
| "branches b ((compare, f) # rest) v =
     ebind (branch b compare f v) (\<lambda>(b1, v1). branches b1 rest v1)"



text \<open>A visitor as its constructor leaves it, on an empty module and a new process.\<close>

definition fresh_visitor :: ProceduralVisitor where
  "fresh_visitor = ProceduralVisitor_init empty_module (new_process 0) ALWAYS"


subsection \<open>What a statement leaves alone\<close>

text \<open>
  The two pools of assigned bits share no bit. One visitor state \<open>keeps\<close> another when
  it has the same sync rules on its process, every staging binding of the other, and
  disjoint pools if the other had them.
\<close>

definition pools_disjoint :: "ProceduralVisitor \<Rightarrow> bool" where
  "pools_disjoint v = (assigned_blocking v \<inter> assigned_nonblocking v = {})"

definition keeps :: "ProceduralVisitor \<Rightarrow> ProceduralVisitor \<Rightarrow> bool" where
  "keeps v v' =
     (syncs (proc v') = syncs (proc v) \<and>
      (\<forall>b x. map_of (staging v) b = Some x \<longrightarrow> map_of (staging v') b = Some x) \<and>
      (pools_disjoint v \<longrightarrow> pools_disjoint v'))"

text \<open>The body of \<open>always_comb v = 2'b01;\<close> for a two-bit variable.\<close>

definition comb_example :: "unit Statement" where
  "comb_example =
     AssignmentStatement False
       (NamedValue \<lparr>expr_type = logic_type 2, expr_constant = None\<rparr> (variable 7 2))
       (IntegerLiteral \<lparr>expr_type = logic_type 2, expr_constant = Some (CVInteger [S1, S0])\<rparr>
          [S1, S0])"








subsection \<open>Consistently typed statements\<close>

text \<open>
  A statement is fine when the expressions the visitor lowers in it are consistently
  typed. The visitor's state is fine when its module has the declared wires and its
  bound arguments have their declared widths.
\<close>

fun display_arg_ok :: "decls \<Rightarrow> ('f \<Rightarrow> bool) \<Rightarrow> 'f DisplayArg \<Rightarrow> bool" where
  "display_arg_ok ds good (StringLiteralArg str) = True"
| "display_arg_ok ds good (ValueArg e) = well_typed ds good e"

fun stmt_ok :: "decls \<Rightarrow> ('f \<Rightarrow> bool) \<Rightarrow> 'f Statement \<Rightarrow> bool" where
  "stmt_ok ds good (AssignmentStatement non_blocking left right) =
     (well_typed ds good left \<and> well_typed ds good right)"
| "stmt_ok ds good (CallStatement name arguments) = list_all (display_arg_ok ds good) arguments"
| "stmt_ok ds good (BlockStatement sequential body) = stmt_ok ds good body"
| "stmt_ok ds good (StatementList stmts) = (\<forall>s \<in> set stmts. stmt_ok ds good s)"
| "stmt_ok ds good (ConditionalStatement conds ifTrue ifFalse) =
     (list_all (\<lambda>c. well_typed ds good (fst c)) conds \<and> stmt_ok ds good ifTrue \<and>
      (case ifFalse of None \<Rightarrow> True | Some s \<Rightarrow> stmt_ok ds good s))"
| "stmt_ok ds good (CaseStatement normal selector items dflt) =
     (well_typed ds good selector \<and>
      (\<forall>item \<in> set items. well_typed_list ds good (fst item) \<and> stmt_ok ds good (snd item)) \<and>
      (case dflt of None \<Rightarrow> True | Some s \<Rightarrow> stmt_ok ds good s))"
| "stmt_ok ds good s = True"

definition lowering_ok :: "decls \<Rightarrow> ProceduralVisitor \<Rightarrow> bool" where
  "lowering_ok ds v = (wires_ok ds (module v) \<and> bound_ok ds (args (ctx v)))"

text \<open>
  A call \<open>f(a)\<close> of \<open>function f(input [1:0] x); f = ~x;\<close> on the two-bit variable
  \<open>a\<close>, in a module that has wires for \<open>a\<close>, for the formal argument and for the
  return variable.
\<close>

definition formal :: "nat \<Rightarrow> nat \<Rightarrow> Symbol" where
  "formal n w = \<lparr>sym_name = n, sym_kind = FormalArgument, sym_type = logic_type w,
     sym_in_instance_body = False, sym_has_initializer = False,
     sym_initializer_constant = None\<rparr>"

definition call_body :: "unit Statement" where
  "call_body =
     AssignmentStatement False
       (NamedValue \<lparr>expr_type = logic_type 2, expr_constant = None\<rparr>
          ((variable 21 2)\<lparr>sym_in_instance_body := False\<rparr>))
       (UnaryOp \<lparr>expr_type = logic_type 2, expr_constant = None\<rparr> BitwiseNot
          (NamedValue \<lparr>expr_type = logic_type 2, expr_constant = None\<rparr> (formal 20 2)))"

definition call_example :: "(unit Statement) Expression" where
  "call_example =
     SubroutineCall \<lparr>expr_type = logic_type 2, expr_constant = None\<rparr> Function [20] 21 call_body
       [NamedValue \<lparr>expr_type = logic_type 2, expr_constant = None\<rparr> (variable 7 2)]"

definition call_decls :: decls where
  "call_decls = [(7, 2), (20, 2), (21, 2)]"

definition call_module :: Module where
  "call_module = \<lparr>autoidx = 30, wires = [(7, 2), (20, 2), (21, 2)], cells = [], processes = []\<rparr>"

section \<open>Properties of the IR builder\<close>

subsection \<open>Subtraction of an all-ones constant\<close>

text \<open>
  C2: whatever the fold table, the signedness and the widths, \<open>Sub\<close> hands back its
  first operand and leaves the module alone when the second operand consists of 1 bits
  only.
\<close>

theorem Sub_fully_ones:
  "is_fully_ones b \<Longrightarrow> Sub ir a b is_signed canvas = (a, canvas)"
  by (simp add: Sub_def)

theorem Sub_fully_ones_witness:
  "is_fully_ones [Bit S1, Bit S1] \<and>
   Sub RTLIL_const [WireBit 3 0, Bit S0, Bit Sx] [Bit S1, Bit S1] True empty_module
     = ([WireBit 3 0, Bit S0, Bit Sx], empty_module)"
proof -
  have h: "is_fully_ones [Bit S1, Bit S1]" by (simp add: is_fully_ones_def)
  show ?thesis using h Sub_fully_ones [OF h] by simp
qed

text \<open>
  C1: the builder's folds are meant to agree with the library's own folds. The
  all-ones shortcut of \<open>Sub\<close> does not: for the one-bit constants 0 and 1, unsigned,
  \<open>Sub\<close> returns the one-bit constant 0, while the library's subtraction at the result
  length \<open>Sub\<close> itself asks for (one more than the wider operand) gives the two-bit
  constant 3.
\<close>

theorem Sub_ones_not_const_sub:
  "Sub RTLIL_const [Bit S0] [Bit S1] False empty_module = ([Bit S0], empty_module) \<and>
   map Bit (RTLIL_const ''sub'' (as_const [Bit S0]) (as_const [Bit S1]) False False
              (int (max (length [Bit S0]) (length [Bit S1])) + 1)) = [Bit S1, Bit S1]"
  by (simp add: Sub_def is_fully_ones_def RTLIL_const_def const_sub_def const2big_def
        big2const_def is_undef_def as_const_def upt_rec)

subsection \<open>The ordering folds\<close>

lemma convert_literal: "ThreeValued_convert sb = literal sb"
  by (cases sb) (auto simp: ThreeValued_convert_def literal_def split: State.splits)

lemma extend_operand_nth:
  "i < width \<Longrightarrow> extend_operand sig sg width ! i =
     (if i < length sig then sig ! i else if sg then last sig else Bit S0)"
  by (simp add: extend_operand_def nth_append)

lemma length_extend_operand:
  "length sig \<le> width \<Longrightarrow> length (extend_operand sig sg width) = width"
  by (simp add: extend_operand_def)

lemma length_lits:
  "length a \<le> width \<Longrightarrow> length b \<le> width \<Longrightarrow> length (lits op a b sa sb width) = width"
  by (simp add: lits_def Let_def length_extend_operand)

lemma compare_step_lits:
  assumes "i < width" "length a \<le> width" "length b \<le> width"
  shows "compare_step op a b sa sb width i (c, x, y) =
     (if i \<noteq> width - 1
      then ThreeValued_CARRY (fst (lits op a b sa sb width ! i))
             (ThreeValued_NOT (snd (lits op a b sa sb width ! i))) c
      else c,
      fst (lits op a b sa sb width ! i), snd (lits op a b sa sb width ! i))"
  using assms
  by (simp add: compare_step_def lits_def Let_def convert_literal extend_operand_nth
        length_extend_operand)

lemma fold_compare_step_prefix:
  assumes "length a \<le> width" "length b \<le> width"
  shows "n < width \<Longrightarrow>
     fst (fold (compare_step op a b sa sb width) [0..<n] (c0, x, y)) =
       carry_chain c0 (take n (lits op a b sa sb width))"
proof (induction n)
  case 0
  then show ?case by (simp add: carry_chain_def)
next
  case (Suc n)
  obtain c x' y' where st: "fold (compare_step op a b sa sb width) [0..<n] (c0, x, y) = (c, x', y')"
    by (cases "fold (compare_step op a b sa sb width) [0..<n] (c0, x, y)") auto
  from Suc have n: "n < width" "n \<noteq> width - 1" by auto
  have c: "c = carry_chain c0 (take n (lits op a b sa sb width))"
    using Suc.IH n st by simp
  have len: "n < length (lits op a b sa sb width)"
    using n assms by (simp add: length_lits)
  show ?case
    using n assms st c len
    by (simp add: compare_step_lits take_Suc_conv_app_nth carry_chain_def split: prod.splits)
qed

lemma fold_compare_step_full:
  assumes "length a \<le> width" "length b \<le> width" "0 < width"
  shows "fold (compare_step op a b sa sb width) [0..<width] (c0, x, y) =
     (carry_chain c0 (butlast (lits op a b sa sb width)),
      fst (last (lits op a b sa sb width)), snd (last (lits op a b sa sb width)))"
proof -
  obtain n where w: "width = Suc n" using assms(3) by (cases width) auto
  obtain c x' y' where st: "fold (compare_step op a b sa sb width) [0..<n] (c0, x, y) = (c, x', y')"
    by (cases "fold (compare_step op a b sa sb width) [0..<n] (c0, x, y)") auto
  have "fst (fold (compare_step op a b sa sb width) [0..<n] (c0, x, y)) =
       carry_chain c0 (take n (lits op a b sa sb width))"
    using fold_compare_step_prefix [OF assms(1,2), of n] w by simp
  then have c: "c = carry_chain c0 (take n (lits op a b sa sb width))" using st by simp
  have len: "length (lits op a b sa sb width) = Suc n"
    using assms w by (simp add: length_lits)
  then have ne: "lits op a b sa sb width \<noteq> []" by auto
  have bl: "butlast (lits op a b sa sb width) = take n (lits op a b sa sb width)"
    using len by (simp add: butlast_conv_take)
  have la: "last (lits op a b sa sb width) = lits op a b sa sb width ! n"
    using len ne by (simp add: last_conv_nth)
  have "fold (compare_step op a b sa sb width) [0..<width] (c0, x, y) =
        compare_step op a b sa sb width n (c, x', y')"
    using w st by simp
  also have "\<dots> = (c, fst (lits op a b sa sb width ! n), snd (lits op a b sa sb width ! n))"
    using compare_step_lits [of n width a b op sa sb c x' y'] assms w by simp
  finally show ?thesis using c bl la by simp
qed

lemma zip_butlast_last:
  assumes "length us = length vs" "us \<noteq> []"
  shows "butlast (zip us vs) = zip (butlast us) (butlast vs) \<and>
         last (zip us vs) = (last us, last vs)"
proof -
  from assms have "vs \<noteq> []" by auto
  with assms show ?thesis by (simp add: butlast_conv_take take_zip last_zip)
qed

lemma compare_literal_refines:
  assumes "a \<noteq> []" "b \<noteq> []"
  shows "compare_literal op a b sa sb = three_valued_compare op a b sa sb"
proof -
  let ?w = "max (length a) (length b)"
  have w: "length a \<le> ?w" "length b \<le> ?w" "0 < ?w" using assms by (cases a; simp)+
  let ?xs = "map literal (extend_operand a sa ?w)"
  let ?ys = "map literal (extend_operand b sb ?w)"
  have lx: "length ?xs = ?w" "length ?ys = ?w" by (simp_all add: length_extend_operand)
  have ne: "?xs \<noteq> []" "?ys \<noteq> []" using lx w(3) by auto
  show ?thesis
    unfolding compare_literal_def three_valued_compare_def Let_def
      fold_compare_step_full [OF w]
    using zip_butlast_last [of ?xs ?ys] zip_butlast_last [of ?ys ?xs] lx ne
    by (simp add: lits_def Let_def)
qed


lemma tv_AND: "tv (ThreeValued_AND x y)"
  by (simp add: tv_def ThreeValued_AND_def)

lemma tv_NOT: "tv x \<Longrightarrow> tv (ThreeValued_NOT x)"
  by (auto simp: tv_def ThreeValued_NOT_def)

lemma tv_OR: "tv (ThreeValued_OR x y)"
  by (simp add: ThreeValued_OR_def tv_NOT tv_AND)

lemma tv_XOR: "tv (ThreeValued_XOR x y)"
  by (simp add: ThreeValued_XOR_def tv_OR)

lemma tv_three_valued_compare: "tv (three_valued_compare op a b sa sb)"
  by (simp add: three_valued_compare_def Let_def tv_XOR)

lemma bool_const_False: "bool_const False w = replicate w (Bit S0)"
  by (cases w) (simp_all add: bool_const_def)

lemma bool_const_True: "bool_const True w = extend_u0 [Bit S1] w False"
  by (cases w) (simp_all add: bool_const_def extend_u0_def)

lemma list_ex_wire_sig: "\<not> list_ex is_const_bit (wire_sig n w)"
  by (simp add: wire_sig_def list_ex_iff)

lemma length_wire_sig: "length (wire_sig n w) = w"
  by (simp add: wire_sig_def)

lemma binary_cell_emits:
  "emits_cell op a b sa sb w canvas (binary_cell op a b sa sb w canvas)"
  by (simp add: emits_cell_def binary_cell_def addWire_new_def Let_def list_ex_wire_sig
        length_wire_sig)

lemma ordering_not_logic: "is_ordering op \<Longrightarrow> op \<noteq> ''$logic_and'' \<and> op \<noteq> ''$logic_or''"
  by (auto simp: is_ordering_def)

lemmas tv_eval = three_valued_compare_def extend_operand_def literal_def carry_chain_def
  ThreeValued_XOR_def ThreeValued_XNOR_def ThreeValued_OR_def ThreeValued_AND_def
  ThreeValued_NOT_def ThreeValued_CARRY_def


text \<open>
  C5, with the guard the code has: for an ordering operator and non-empty operands that
  are not both fully constant (at least one bit is a wire bit), \<open>Biop\<close> does what the
  three-valued reading says: it returns the constant 1 or 0 at the output width when the
  final literal is 1 or -1 and leaves the module alone, and emits a cell of the given
  type on both operands otherwise.
\<close>

theorem Biop_ordering_three_valued:
  assumes "is_ordering op" and "a \<noteq> []" and "b \<noteq> []"
    and "\<not> (is_fully_const a \<and> is_fully_const b)"
  shows "ordering_fold_spec op a b a_signed b_signed y_width canvas
           (Biop ir op a b a_signed b_signed y_width canvas)"
proof -
  let ?lit = "three_valued_compare op a b a_signed b_signed"
  have lit: "compare_literal op a b a_signed b_signed = ?lit"
    using assms(2,3) by (rule compare_literal_refines)
  have rng: "?lit = - 1 \<or> ?lit = 0 \<or> ?lit = 1"
    using tv_three_valued_compare [of op a b a_signed b_signed] by (simp add: tv_def)
  have nl: "op \<noteq> ''$logic_and''" "op \<noteq> ''$logic_or''"
    using ordering_not_logic [OF assms(1)] by simp_all
  have nc: "(is_fully_const a \<and> is_fully_const b \<and> fold_type op \<noteq> None) = False"
    using assms(4) by blast
  have ord: "(is_ordering op \<and> a \<noteq> [] \<and> b \<noteq> [] \<and> P) = P" for P
    using assms(1-3) by simp
  from rng show ?thesis
  proof (elim disjE)
    assume "?lit = - 1"
    then show ?thesis
      using lit nl by (simp only: ordering_fold_spec_def Biop_def nc ord Let_def) (simp add: bool_const_False)
  next
    assume "?lit = 0"
    then show ?thesis
      using lit nl by (simp only: ordering_fold_spec_def Biop_def nc ord Let_def) (simp add: binary_cell_emits)
  next
    assume "?lit = 1"
    then show ?thesis
      using lit nl by (simp only: ordering_fold_spec_def Biop_def nc ord Let_def) (simp add: bool_const_True)
  qed
qed

theorem Biop_ordering_three_valued_witness:
  "is_ordering ''$lt'' \<and> [WireBit 5 0, Bit S0] \<noteq> [] \<and> [Bit S0, Bit S1] \<noteq> [] \<and>
   \<not> (is_fully_const [WireBit 5 0, Bit S0] \<and> is_fully_const [Bit S0, Bit S1]) \<and>
   three_valued_compare ''$lt'' [WireBit 5 0, Bit S0] [Bit S0, Bit S1] False False = 1 \<and>
   Biop RTLIL_const ''$lt'' [WireBit 5 0, Bit S0] [Bit S0, Bit S1] False False 1 empty_module
     = ([Bit S1], empty_module)"
proof -
  have h1: "is_ordering ''$lt''" by (simp add: is_ordering_def)
  have h2: "[WireBit 5 0, Bit S0] \<noteq> []" by simp
  have h3: "[Bit S0, Bit S1] \<noteq> []" by simp
  have h4: "\<not> (is_fully_const [WireBit 5 0, Bit S0] \<and> is_fully_const [Bit S0, Bit S1])"
    by (simp add: is_fully_const_def)
  have l: "three_valued_compare ''$lt'' [WireBit 5 0, Bit S0] [Bit S0, Bit S1] False False = 1"
    by (simp add: tv_eval)
  show ?thesis
    using Biop_ordering_three_valued [OF h1 h2 h3 h4, of False False 1 empty_module RTLIL_const]
      h1 h4 l
    by (simp add: ordering_fold_spec_def bool_const_def)
qed


text \<open>
  C5 as stated speaks of operands that are not both fully defined constants. Constants
  with an X bit are such operands, yet they are fully constant and take the library
  fold: comparing the constant X with the constant 0 returns the constant X and no
  cell, although the final literal is 0.
\<close>

theorem Biop_ordering_constant_x_counterexample:
  "is_ordering ''$lt'' \<and> [Bit Sx] \<noteq> [] \<and> [Bit S0] \<noteq> [] \<and>
   \<not> (is_fully_def [Bit Sx] \<and> is_fully_def [Bit S0]) \<and>
   \<not> ordering_fold_spec ''$lt'' [Bit Sx] [Bit S0] False False 1 empty_module
        (Biop RTLIL_const ''$lt'' [Bit Sx] [Bit S0] False False 1 empty_module)"
proof -
  have r: "Biop RTLIL_const ''$lt'' [Bit Sx] [Bit S0] False False 1 empty_module
             = ([Bit Sx], empty_module)"
    by (simp add: Biop_def is_fully_const_def fold_type_def folded_ops_def RTLIL_const_def
          const_lt_def const2big_def compare_result_def is_undef_def as_const_def)
  have l: "three_valued_compare ''$lt'' [Bit Sx] [Bit S0] False False = 0"
    by (simp add: tv_eval)
  show ?thesis
    unfolding r
    by (simp add: l ordering_fold_spec_def emits_cell_def is_ordering_def is_fully_def_def)
qed


text \<open>
  The literal is the top bit of the difference at the width of the wider operand, so
  for unsigned operands of equal width it can be definite where the comparison goes the
  other way: an unsigned two-bit signal with top bit 1 is found to be less than 0.
\<close>

lemma Biop_lt_unsigned_example:
  "Biop RTLIL_const ''$lt'' [WireBit 5 0, Bit S1] [Bit S0, Bit S0] False False 1 empty_module
     = ([Bit S1], empty_module)"
  by (simp add: Biop_def is_fully_const_def is_ordering_def compare_literal_def
        compare_step_def ThreeValued_convert_def upt_rec extend_u0_def tv_eval)

section \<open>Properties of the expression lowering\<close>

lemmas eval_defs = const_or_def done_check_def ebind_def named_value_def wire_def wire_sig_def
  lower_unary_def unary_cell_type_def unary_cell_def addWire_new_def addLogicNot_def
  type_of_def logic_type_def variable_def Let_def

text \<open>
  C4: a reduction-NAND or reduction-NOR is meant to lower to the inverter's output. The
  unary case creates the inverter on a second wire but returns the first: lowering
  \<open>~&a\<close> for a two-bit variable \<open>a\<close> returns the output of the \<open>$reduce_and\<close>
  cell, which is the inverter's input, not its output.
\<close>

theorem nand_example_eval:
  "\<exists>m'. evaluate_rhs no_calls None nand_example example_module = Inr ([WireBit 11 0], m') \<and>
     map (\<lambda>c. (cell_type c, connections c ''A'', connections c ''Y'')) (cells m')
       = [(''$reduce_and'', Some [WireBit 7 0, WireBit 7 1], Some [WireBit 11 0]),
          (''$logic_not'', Some [WireBit 11 0], Some [WireBit 12 0])]"
  by (simp add: nand_example_def example_module_def eval_defs upt_rec)

subsection \<open>The width of a lowered expression\<close>

lemma wires_ok_iff: "wires_ok ds m = (\<forall>n w. map_of ds n = Some w \<longrightarrow> map_of (wires m) n = Some w)"
  by (auto simp: wires_ok_def list_all_iff dest: map_of_SomeD)

lemma safe_Inr [simp]: "safe (Inr x) Q = Q x"
  by (simp add: safe_def)

lemma safe_Inl [simp]: "safe (Inl e) Q = (e \<noteq> WidthAssertionFailed)"
  by (simp add: safe_def)

lemma safe_ebind:
  "safe r R \<Longrightarrow> (\<And>x. r = Inr x \<Longrightarrow> R x \<Longrightarrow> safe (f x) Q) \<Longrightarrow> safe (ebind r f) Q"
  by (cases r) (simp_all add: ebind_def)

lemma safe_mono: "safe r R \<Longrightarrow> (\<And>x. r = Inr x \<Longrightarrow> R x \<Longrightarrow> Q x) \<Longrightarrow> safe r Q"
  by (cases r) simp_all

lemma safe_done_check:
  "safe r (post ds (bitstreamWidth (expr_type h))) \<Longrightarrow>
   safe (done_check h r) (post ds (bitstreamWidth (expr_type h)))"
  by (cases r) (auto simp: done_check_def ebind_def post_def)

lemma safe_const_or:
  "const_ok h \<Longrightarrow> wires_ok ds m \<Longrightarrow> safe k (post ds (bitstreamWidth (expr_type h))) \<Longrightarrow>
   safe (const_or h m k) (post ds (bitstreamWidth (expr_type h)))"
  by (auto simp: const_or_def const_ok_def done_check_def ebind_def post_def
        split: option.splits ConstantValue.splits)


lemma wires_ok_autoidx [simp]: "wires_ok ds (m\<lparr>autoidx := k\<rparr>) = wires_ok ds m"
  by (simp add: wires_ok_def)

lemma wires_ok_cells [simp]: "wires_ok ds (m\<lparr>cells := c\<rparr>) = wires_ok ds m"
  by (simp add: wires_ok_def)

lemma wires_ok_processes [simp]: "wires_ok ds (m\<lparr>processes := c\<rparr>) = wires_ok ds m"
  by (simp add: wires_ok_def)

lemma wires_ok_append: "wires_ok ds m \<Longrightarrow> wires_ok ds (m\<lparr>wires := wires m @ ws\<rparr>)"
  by (auto simp: wires_ok_iff)

lemma addWire_new_ok:
  "length (fst (addWire_new w m)) = w"
  "wires_ok ds m \<Longrightarrow> wires_ok ds (snd (addWire_new w m))"
  by (auto simp: addWire_new_def wire_sig_def wires_ok_iff)

lemma unary_cell_ok:
  "length (fst (unary_cell op a s w m)) = w"
  "wires_ok ds m \<Longrightarrow> wires_ok ds (snd (unary_cell op a s w m))"
  by (auto simp: unary_cell_def Let_def addWire_new_def wire_sig_def wires_ok_iff)

lemma binary_cell_ok:
  "length (fst (binary_cell op a b sa sb w m)) = w"
  "wires_ok ds m \<Longrightarrow> wires_ok ds (snd (binary_cell op a b sa sb w m))"
  by (auto simp: binary_cell_def Let_def addWire_new_def wire_sig_def wires_ok_iff)

lemma module_Mux_ok:
  "length (fst (module_Mux a b s m)) = length a"
  "wires_ok ds m \<Longrightarrow> wires_ok ds (snd (module_Mux a b s m))"
  by (auto simp: module_Mux_def Let_def addWire_new_def wire_sig_def wires_ok_iff)

lemma module_Bmux_ok:
  "wires_ok ds m \<Longrightarrow> wires_ok ds (snd (module_Bmux a s m))"
  by (auto simp: module_Bmux_def Let_def addWire_new_def wire_sig_def wires_ok_iff)

lemma addLogicNot_ok [simp]: "wires_ok ds (addLogicNot a y m) = wires_ok ds m"
  by (simp add: addLogicNot_def wires_ok_def)

lemma translate_index_sig_ok:
  "wires_ok ds m \<Longrightarrow> wires_ok ds (snd (translate_index_sig s rng idx m))"
  by (simp add: translate_index_sig_def Let_def case_prod_beta binary_cell_ok)

lemma lower_unary_safe:
  "wires_ok ds m \<Longrightarrow>
   safe (lower_unary h op s left m) (post ds (bitstreamWidth (expr_type h)))"
  by (auto simp: lower_unary_def Let_def case_prod_beta post_def unary_cell_ok addWire_new_ok
        split: option.splits)

lemma lower_binary_safe:
  "wires_ok ds m \<Longrightarrow>
   safe (lower_binary h op sl sr left right m) (post ds (bitstreamWidth (expr_type h)))"
  by (auto simp: lower_binary_def Let_def case_prod_beta post_def addWire_new_ok
        split: option.splits)


lemma length_replace: "length (replace d sig) = length sig"
  by (simp add: replace_def)

lemma length_extend_u0: "length (extend_u0 sig w s) = w"
  by (simp add: extend_u0_def)

lemma named_value_safe:
  assumes "wires_ok ds m" "map_of ds (sym_name symb) = Some w"
  shows "safe (named_value cx symb m) (post ds w)"
  using assms
  by (auto simp: named_value_def wire_def post_def wires_ok_iff wire_sig_def length_replace
        split: option.splits)


lemma post_pair: "post ds w (sig, m') = (length sig = w \<and> wires_ok ds m')"
  by (simp add: post_def)

lemma post_alt: "post ds w x = (length (fst x) = w \<and> wires_ok ds (snd x))"
  by (simp add: post_def case_prod_beta)

lemma safe_ebind_pair:
  "safe r R \<Longrightarrow> (\<And>a b. r = Inr (a, b) \<Longrightarrow> R (a, b) \<Longrightarrow> safe (f a b) Q)
     \<Longrightarrow> safe (ebind r (\<lambda>(a, b). f a b)) Q"
  by (cases r) (auto simp: ebind_def)

lemma safe_const_done:
  "safe k (post ds (bitstreamWidth (expr_type h))) \<Longrightarrow> const_ok h \<Longrightarrow> wires_ok ds m \<Longrightarrow>
   safe (const_or h m (done_check h k)) (post ds (bitstreamWidth (expr_type h)))"
  by (simp add: safe_const_or safe_done_check)

lemma safe_const_only:
  "safe k (post ds (bitstreamWidth (expr_type h))) \<Longrightarrow> const_ok h \<Longrightarrow> wires_ok ds m \<Longrightarrow>
   safe (const_or h m k) (post ds (bitstreamWidth (expr_type h)))"
  by (simp add: safe_const_or)

lemma evaluate_rhs_list_safe:
  assumes "\<And>e m. e \<in> set es \<Longrightarrow> well_typed ds good e \<Longrightarrow> wires_ok ds m \<Longrightarrow>
             safe (evaluate_rhs run cx e m) (post ds (bitstreamWidth (type_of e)))"
    and "well_typed_list ds good es" "wires_ok ds m"
  shows "safe (evaluate_rhs_list run cx es m)
           (\<lambda>(sigs, m'). map length sigs = map (\<lambda>e. bitstreamWidth (type_of e)) es \<and>
                          wires_ok ds m')"
  using assms
proof (induction es arbitrary: m)
  case Nil
  then show ?case by simp
next
  case (Cons e es)
  have e: "safe (evaluate_rhs run cx e m) (post ds (bitstreamWidth (type_of e)))"
    using Cons.prems by simp
  show ?case
    unfolding evaluate_rhs_list.simps
  proof (rule safe_ebind_pair [OF e])
    fix sig m1
    assume "post ds (bitstreamWidth (type_of e)) (sig, m1)"
    then have m1: "wires_ok ds m1" and len: "length sig = bitstreamWidth (type_of e)"
      by (simp_all add: post_pair)
    have r: "safe (evaluate_rhs_list run cx es m1)
               (\<lambda>(sigs, m'). map length sigs = map (\<lambda>e. bitstreamWidth (type_of e)) es \<and>
                              wires_ok ds m')"
      using Cons.prems m1 by (intro Cons.IH) simp_all
    show "safe (ebind (evaluate_rhs_list run cx es m1) (\<lambda>(sigs, m2). Inr (sig # sigs, m2)))
            (\<lambda>(sigs, m'). map length sigs = map (\<lambda>e. bitstreamWidth (type_of e)) (e # es) \<and>
                wires_ok ds m')"
      by (rule safe_ebind_pair [OF r]) (simp add: len)
  qed
qed


lemma safe_sig_extract: "safe (sig_extract sig off len) (\<lambda>r. int (length r) = len)"
  by (auto simp: sig_extract_def)

lemma length_concat_rev: "length (concat (rev xs)) = sum_list (map length xs)"
  by (simp add: length_concat rev_map [symmetric])

lemma length_concat_replicate: "length (concat (replicate n xs)) = n * length xs"
  by (induction n) simp_all

lemma translateIndex_diff:
  "(if range_left rng \<ge> range_right rng then l \<ge> r else l \<le> r) \<Longrightarrow>
   translateIndex rng l - translateIndex rng r = \<bar>l - r\<bar>"
  by (auto simp: translateIndex_def split: if_splits)

lemma bound_ok_zip:
  assumes "map (map_of ds) formals = map (\<lambda>a. Some (bitstreamWidth (type_of a))) arguments"
    and "map length sigs = map (\<lambda>e. bitstreamWidth (type_of e)) arguments"
  shows "bound_ok ds (zip formals sigs)"
proof -
  have l: "length formals = length arguments" "length sigs = length arguments"
    using assms [THEN arg_cong [where f = length]] by simp_all
  have "map_of ds n = Some (length sig)" if "(n, sig) \<in> set (zip formals sigs)" for n sig
  proof -
    from that obtain i where i: "i < length arguments" "formals ! i = n" "sigs ! i = sig"
      using l by (auto simp: set_zip)
    have "map_of ds (formals ! i) = Some (bitstreamWidth (type_of (arguments ! i)))"
      using assms(1) [THEN arg_cong [where f = "\<lambda>xs. xs ! i"]] i(1) l by simp
    moreover have "length (sigs ! i) = bitstreamWidth (type_of (arguments ! i))"
      using assms(2) [THEN arg_cong [where f = "\<lambda>xs. xs ! i"]] i(1) l by simp
    ultimately show ?thesis using i by simp
  qed
  then show ?thesis by (auto simp: bound_ok_def list_all_iff)
qed

lemma conds_shape:
  "(\<exists>cond pat. conds = [(cond, pat)]) \<or>
   (\<forall>run cx h l r m. evaluate_rhs run cx (ConditionalOp h conds l r) m = const_or h m (Inl Unimplemented))"
proof (cases conds)
  case Nil
  then show ?thesis by simp
next
  case (Cons p rest)
  then show ?thesis by (cases rest; cases p) simp_all
qed

lemma well_typed_conds_const:
  "well_typed ds good (ConditionalOp h conds l r) \<Longrightarrow> const_ok h"
proof (cases conds)
  case Nil
  then show "well_typed ds good (ConditionalOp h conds l r) \<Longrightarrow> const_ok h" by simp
next
  case (Cons p rest)
  then show "well_typed ds good (ConditionalOp h conds l r) \<Longrightarrow> const_ok h"
    by (cases rest; cases p) simp_all
qed

lemma evaluate_rhs_safe:
  assumes run: "run_ok ds good run" and cx: "args_ok ds cx"
  shows "well_typed ds good e \<Longrightarrow> wires_ok ds m \<Longrightarrow>
         safe (evaluate_rhs run cx e m) (post ds (bitstreamWidth (type_of e)))"
proof (induction e arbitrary: m)
  case (NamedValue h symb)
  have c: "const_ok h" and w: "bitstreamWidth (expr_type h) = bitstreamWidth (sym_type symb)"
    using NamedValue.prems(1) by simp_all
  have "safe (case sym_kind symb of
          Net \<Rightarrow> named_value cx symb m
        | Variable \<Rightarrow> named_value cx symb m
        | Parameter \<Rightarrow>
            if \<not> sym_has_initializer symb then Inl Unimplemented
            else (case sym_initializer_constant symb of
                    Some (CVInteger c) \<Rightarrow> Inr (map Bit c, m)
                  | _ \<Rightarrow> Inl Unimplemented)
        | FormalArgument \<Rightarrow>
            (case cx of
               None \<Rightarrow> Inl Unimplemented
             | Some c \<Rightarrow>
                 (case map_of (args c) (sym_name symb) of
                    None \<Rightarrow> Inl Unimplemented
                  | Some sig \<Rightarrow> Inr (sig, m)))
        | OtherSymbol \<Rightarrow> Inl Unimplemented) (post ds (bitstreamWidth (expr_type h)))"
  proof (cases "sym_kind symb")
    case Net
    then show ?thesis using NamedValue.prems by (simp add: named_value_safe)
  next
    case Variable
    then show ?thesis using NamedValue.prems by (simp add: named_value_safe)
  next
    case Parameter
    then show ?thesis using NamedValue.prems
      by (auto simp: post_pair split: option.splits ConstantValue.splits)
  next
    case FormalArgument
    have d: "map_of ds (sym_name symb) = Some (bitstreamWidth (sym_type symb))"
      using NamedValue.prems(1) FormalArgument by simp
    have "length sig = bitstreamWidth (expr_type h)"
      if "cx = Some c" "map_of (args c) (sym_name symb) = Some sig" for c sig
    proof -
      have "(sym_name symb, sig) \<in> set (args c)" using that(2) by (rule map_of_SomeD)
      then have "map_of ds (sym_name symb) = Some (length sig)"
        using cx that(1) by (auto simp: args_ok_def bound_ok_def list_all_iff)
      with d w show ?thesis by simp
    qed
    then show ?thesis using FormalArgument NamedValue.prems(2)
      by (auto simp: post_pair split: option.splits)
  next
    case OtherSymbol
    then show ?thesis by simp
  qed
  then show ?case
    unfolding evaluate_rhs.simps type_of_def info.simps
    by (rule safe_const_done) (use c NamedValue.prems(2) in simp_all)
next
  case (UnaryOp h op a)
  have "safe (ebind (evaluate_rhs run cx a m)
          (\<lambda>(left, m1). lower_unary h op (isSigned (type_of a)) left m1))
        (post ds (bitstreamWidth (expr_type h)))"
    by (rule safe_ebind_pair [OF UnaryOp.IH])
       (use UnaryOp.prems in \<open>simp_all add: post_pair lower_unary_safe\<close>)
  then show ?case
    unfolding evaluate_rhs.simps type_of_def info.simps
    by (rule safe_const_done) (use UnaryOp.prems in simp_all)
next
  case (BinaryOp h op l r)
  have "safe (ebind (evaluate_rhs run cx l m)
          (\<lambda>(left, m1). ebind (evaluate_rhs run cx r m1)
             (\<lambda>(right, m2).
                lower_binary h op (isSigned (type_of l)) (isSigned (type_of r)) left right m2)))
        (post ds (bitstreamWidth (expr_type h)))"
  proof (rule safe_ebind_pair [OF BinaryOp.IH(1)])
    fix left m1 assume "post ds (bitstreamWidth (type_of l)) (left, m1)"
    then have m1: "wires_ok ds m1" by (simp add: post_pair)
    show "safe (ebind (evaluate_rhs run cx r m1)
             (\<lambda>(right, m2).
                lower_binary h op (isSigned (type_of l)) (isSigned (type_of r)) left right m2))
           (post ds (bitstreamWidth (expr_type h)))"
      by (rule safe_ebind_pair [OF BinaryOp.IH(2)])
         (use BinaryOp.prems m1 in \<open>simp_all add: post_pair lower_binary_safe\<close>)
  qed (use BinaryOp.prems in simp_all)
  then show ?case
    unfolding evaluate_rhs.simps type_of_def info.simps
    by (rule safe_const_done) (use BinaryOp.prems in simp_all)
next
  case (Conversion h a)
  have "safe (if \<not> isIntegral (type_of a) \<or> \<not> isIntegral (expr_type h) then Inl Unimplemented
        else if \<not> (isSigned (type_of a) = isSigned (expr_type h)
                    \<or> bitWidth (expr_type h) \<le> bitWidth (type_of a))
        then Inl Unimplemented
        else ebind (evaluate_rhs run cx a m)
               (\<lambda>(ret, m1).
                  Inr (extend_u0 ret (bitWidth (expr_type h)) (isSigned (expr_type h)), m1)))
        (post ds (bitstreamWidth (expr_type h)))"
  proof (cases "isIntegral (expr_type h)")
    case True
    then have bw: "bitWidth (expr_type h) = bitstreamWidth (expr_type h)"
      using Conversion.prems by simp
    have "safe (ebind (evaluate_rhs run cx a m)
               (\<lambda>(ret, m1).
                  Inr (extend_u0 ret (bitWidth (expr_type h)) (isSigned (expr_type h)), m1)))
            (post ds (bitstreamWidth (expr_type h)))"
      by (rule safe_ebind_pair [OF Conversion.IH])
         (use Conversion.prems in \<open>simp_all add: post_pair bw length_extend_u0\<close>)
    then show ?thesis by simp
  next
    case False
    then show ?thesis by simp
  qed
  then show ?case
    unfolding evaluate_rhs.simps type_of_def info.simps
    by (rule safe_const_done) (use Conversion.prems in simp_all)
next
  case (IntegerLiteral h c)
  have "safe (Inr (map Bit c, m)) (post ds (bitstreamWidth (expr_type h)))"
    using IntegerLiteral.prems by (simp add: post_pair)
  then show ?case
    unfolding evaluate_rhs.simps type_of_def info.simps
    by (rule safe_const_done) (use IntegerLiteral.prems in simp_all)
next
  case (RangeSelect h kind val left right)
  have "safe (if kind \<noteq> Simple then Inl Unimplemented
        else case (left, right) of
          (Some l, Some r) \<Rightarrow>
            (case fixedRange (type_of val) of
               None \<Rightarrow> Inl Unimplemented
             | Some rng \<Rightarrow>
                 let raw_left = translateIndex rng l;
                     raw_right = translateIndex rng r
                 in if int (bitstreamWidth (type_of val)) mod range_width rng \<noteq> 0
                    then Inl AssertionFailed
                    else
                      let stride = int (bitstreamWidth (type_of val)) div range_width rng
                      in ebind (evaluate_rhs run cx val m)
                           (\<lambda>(sig, m1).
                              ebind (sig_extract sig (raw_right * stride)
                                       (stride * (raw_left - raw_right + 1)))
                                (\<lambda>ret. Inr (ret, m1))))
        | _ \<Rightarrow> Inl Unimplemented) (post ds (bitstreamWidth (expr_type h)))"
  proof (cases "\<exists>l r rng. left = Some l \<and> right = Some r \<and> fixedRange (type_of val) = Some rng")
    case True
    then obtain l r rng where
      lr: "left = Some l" "right = Some r" "fixedRange (type_of val) = Some rng" by blast
    have ty: "int (bitstreamWidth (expr_type h))
                = (int (bitstreamWidth (type_of val)) div range_width rng) * (\<bar>l - r\<bar> + 1)"
      and dir: "if range_left rng \<ge> range_right rng then l \<ge> r else l \<le> r"
      using RangeSelect.prems(1) lr by simp_all
    have "safe (ebind (evaluate_rhs run cx val m)
             (\<lambda>(sig, m1).
                ebind (sig_extract sig
                         (translateIndex rng r * (int (bitstreamWidth (type_of val)) div range_width rng))
                         ((int (bitstreamWidth (type_of val)) div range_width rng) *
                            (translateIndex rng l - translateIndex rng r + 1)))
                  (\<lambda>ret. Inr (ret, m1))))
          (post ds (bitstreamWidth (expr_type h)))"
    proof (rule safe_ebind_pair [OF RangeSelect.IH])
      fix sig m1 assume "post ds (bitstreamWidth (type_of val)) (sig, m1)"
      then have m1: "wires_ok ds m1" by (simp add: post_pair)
      show "safe (ebind (sig_extract sig
                         (translateIndex rng r * (int (bitstreamWidth (type_of val)) div range_width rng))
                         ((int (bitstreamWidth (type_of val)) div range_width rng) *
                            (translateIndex rng l - translateIndex rng r + 1)))
                  (\<lambda>ret. Inr (ret, m1)))
              (post ds (bitstreamWidth (expr_type h)))"
        by (rule safe_ebind [OF safe_sig_extract])
           (use ty m1 in \<open>simp add: post_pair translateIndex_diff [OF dir]\<close>)
    qed (use RangeSelect.prems in simp_all)
    then show ?thesis by (simp add: lr Let_def)
  next
    case False
    then show ?thesis by (auto split: option.splits)
  qed
  then show ?case
    unfolding evaluate_rhs.simps type_of_def info.simps
    by (rule safe_const_done) (use RangeSelect.prems in simp_all)
next
  case (ElementSelect h val selector)
  have "safe (case (isArray (type_of val), fixedRange (type_of val)) of
          (True, Some rng) \<Rightarrow>
            let stride = bitstreamWidth (expr_type h)
            in ebind (evaluate_rhs run cx val m)
                 (\<lambda>(base_value, m1).
                    if stride = 0 then Inl Aborted
                    else if length base_value mod stride \<noteq> 0 then Inl AssertionFailed
                    else ebind (evaluate_rhs run cx selector m1)
                      (\<lambda>(idx, m2).
                         let ((raw_idx, valid), m3) =
                               translate_index_sig (isSigned (type_of selector)) rng idx m2
                         in if stride * 2 ^ length raw_idx < length base_value
                            then Inl AssertionFailed
                            else
                              let padded = base_value @
                                     replicate (stride * 2 ^ length raw_idx - length base_value) (Bit Sx);
                                  (picked, m4) = module_Bmux padded raw_idx m3
                              in Inr (module_Mux (replicate stride (Bit Sx)) picked valid m4)))
        | _ \<Rightarrow> Inl Unimplemented) (post ds (bitstreamWidth (expr_type h)))"
  proof (cases "\<exists>rng. isArray (type_of val) \<and> fixedRange (type_of val) = Some rng")
    case True
    then obtain rng where a: "isArray (type_of val)" "fixedRange (type_of val) = Some rng"
      by blast
    have "safe (ebind (evaluate_rhs run cx val m)
                 (\<lambda>(base_value, m1).
                    if bitstreamWidth (expr_type h) = 0 then Inl Aborted
                    else if length base_value mod bitstreamWidth (expr_type h) \<noteq> 0
                    then Inl AssertionFailed
                    else ebind (evaluate_rhs run cx selector m1)
                      (\<lambda>(idx, m2).
                         let ((raw_idx, valid), m3) =
                               translate_index_sig (isSigned (type_of selector)) rng idx m2
                         in if bitstreamWidth (expr_type h) * 2 ^ length raw_idx < length base_value
                            then Inl AssertionFailed
                            else
                              let padded = base_value @
                                     replicate (bitstreamWidth (expr_type h) * 2 ^ length raw_idx
                                                  - length base_value) (Bit Sx);
                                  (picked, m4) = module_Bmux padded raw_idx m3
                              in Inr (module_Mux (replicate (bitstreamWidth (expr_type h)) (Bit Sx))
                                        picked valid m4))))
            (post ds (bitstreamWidth (expr_type h)))"
    proof (rule safe_ebind_pair [OF ElementSelect.IH(1)])
      fix base_value m1 assume "post ds (bitstreamWidth (type_of val)) (base_value, m1)"
      then have m1: "wires_ok ds m1" by (simp add: post_pair)
      have "safe (ebind (evaluate_rhs run cx selector m1)
                      (\<lambda>(idx, m2).
                         let ((raw_idx, valid), m3) =
                               translate_index_sig (isSigned (type_of selector)) rng idx m2
                         in if bitstreamWidth (expr_type h) * 2 ^ length raw_idx < length base_value
                            then Inl AssertionFailed
                            else
                              let padded = base_value @
                                     replicate (bitstreamWidth (expr_type h) * 2 ^ length raw_idx
                                                  - length base_value) (Bit Sx);
                                  (picked, m4) = module_Bmux padded raw_idx m3
                              in Inr (module_Mux (replicate (bitstreamWidth (expr_type h)) (Bit Sx))
                                        picked valid m4)))
              (post ds (bitstreamWidth (expr_type h)))"
      proof (rule safe_ebind_pair [OF ElementSelect.IH(2)])
        fix idx m2 assume "post ds (bitstreamWidth (type_of selector)) (idx, m2)"
        then have m2: "wires_ok ds m2" by (simp add: post_pair)
        show "safe (let ((raw_idx, valid), m3) =
                               translate_index_sig (isSigned (type_of selector)) rng idx m2
                         in if bitstreamWidth (expr_type h) * 2 ^ length raw_idx < length base_value
                            then Inl AssertionFailed
                            else
                              let padded = base_value @
                                     replicate (bitstreamWidth (expr_type h) * 2 ^ length raw_idx
                                                  - length base_value) (Bit Sx);
                                  (picked, m4) = module_Bmux padded raw_idx m3
                              in Inr (module_Mux (replicate (bitstreamWidth (expr_type h)) (Bit Sx))
                                        picked valid m4))
                (post ds (bitstreamWidth (expr_type h)))"
          using translate_index_sig_ok [OF m2]
          by (simp add: Let_def case_prod_beta post_alt module_Mux_ok module_Bmux_ok)
      qed (use ElementSelect.prems m1 in simp_all)
      then show "safe (if bitstreamWidth (expr_type h) = 0 then Inl Aborted
                    else if length base_value mod bitstreamWidth (expr_type h) \<noteq> 0
                    then Inl AssertionFailed
                    else ebind (evaluate_rhs run cx selector m1)
                      (\<lambda>(idx, m2).
                         let ((raw_idx, valid), m3) =
                               translate_index_sig (isSigned (type_of selector)) rng idx m2
                         in if bitstreamWidth (expr_type h) * 2 ^ length raw_idx < length base_value
                            then Inl AssertionFailed
                            else
                              let padded = base_value @
                                     replicate (bitstreamWidth (expr_type h) * 2 ^ length raw_idx
                                                  - length base_value) (Bit Sx);
                                  (picked, m4) = module_Bmux padded raw_idx m3
                              in Inr (module_Mux (replicate (bitstreamWidth (expr_type h)) (Bit Sx))
                                        picked valid m4)))
              (post ds (bitstreamWidth (expr_type h)))"
        by simp
    qed (use ElementSelect.prems in simp_all)
    then show ?thesis by (simp add: a Let_def)
  next
    case False
    then show ?thesis by (auto split: option.splits bool.splits)
  qed
  then show ?case
    unfolding evaluate_rhs.simps type_of_def info.simps
    by (rule safe_const_done) (use ElementSelect.prems in simp_all)
next
  case (Concatenation h operands)
  have l: "safe (evaluate_rhs_list run cx operands m)
           (\<lambda>(sigs, m'). map length sigs = map (\<lambda>e. bitstreamWidth (type_of e)) operands \<and>
                          wires_ok ds m')"
  proof (rule evaluate_rhs_list_safe)
    show "well_typed_list ds good operands" using Concatenation.prems(1) by simp
    show "wires_ok ds m" by (rule Concatenation.prems(2))
  qed (rule Concatenation.IH)
  have w: "bitstreamWidth (expr_type h)
             = sum_list (map (\<lambda>e. bitstreamWidth (type_of e)) operands)"
    using Concatenation.prems by simp
  have "safe (ebind (evaluate_rhs_list run cx operands m)
          (\<lambda>(sigs, m1). Inr (concat (rev sigs), m1)))
        (post ds (bitstreamWidth (expr_type h)))"
  proof (rule safe_ebind_pair [OF l])
    fix sigs :: "SigSpec list" and m1 :: Module
    assume "case (sigs, m1) of (sigs, m') \<Rightarrow>
              map length sigs = map (\<lambda>e. bitstreamWidth (type_of e)) operands \<and> wires_ok ds m'"
    then have lens: "map length sigs = map (\<lambda>e. bitstreamWidth (type_of e)) operands"
      and m1: "wires_ok ds m1" by simp_all
    show "safe (Inr (concat (rev sigs), m1)) (post ds (bitstreamWidth (expr_type h)))"
      unfolding safe_Inr post_pair length_concat_rev lens w by (simp add: m1)
  qed
  then show ?case
    unfolding evaluate_rhs.simps type_of_def info.simps
    by (rule safe_const_done) (use Concatenation.prems in simp_all)
next
  case (ConditionalOp h conds l r)
  show ?case
  proof (cases "\<exists>cond pat. conds = [(cond, pat)]")
    case True
    then obtain cond pat where conds: "conds = [(cond, pat)]" by blast
    have wt: "well_typed ds good cond" "well_typed ds good l" "well_typed ds good r"
      and w: "bitstreamWidth (type_of r) = bitstreamWidth (expr_type h)"
      using ConditionalOp.prems(1) by (simp_all add: conds)
    have ihc: "safe (evaluate_rhs run cx cond m') (post ds (bitstreamWidth (type_of cond)))"
      if "wires_ok ds m'" for m'
      by (rule ConditionalOp.IH(1) [of "(cond, pat)" cond]) (simp_all add: conds wt that)
    have "safe (if pat then Inl Unimplemented
        else ebind (evaluate_rhs run cx r m)
          (\<lambda>(a, m1). ebind (evaluate_rhs run cx l m1)
             (\<lambda>(b, m2). ebind (evaluate_rhs run cx cond m2)
                (\<lambda>(c, m3).
                   let (s, m4) = unary_cell ''$reduce_bool'' c False 1 m3
                   in Inr (module_Mux a b s m4)))))
        (post ds (bitstreamWidth (expr_type h)))"
    proof (cases pat)
      case True
      then show ?thesis by simp
    next
      case False
      have "safe (ebind (evaluate_rhs run cx r m)
          (\<lambda>(a, m1). ebind (evaluate_rhs run cx l m1)
             (\<lambda>(b, m2). ebind (evaluate_rhs run cx cond m2)
                (\<lambda>(c, m3).
                   let (s, m4) = unary_cell ''$reduce_bool'' c False 1 m3
                   in Inr (module_Mux a b s m4)))))
        (post ds (bitstreamWidth (expr_type h)))"
      proof (rule safe_ebind_pair [OF ConditionalOp.IH(3)])
        fix a m1 assume "post ds (bitstreamWidth (type_of r)) (a, m1)"
        then have m1: "wires_ok ds m1" and a: "length a = bitstreamWidth (expr_type h)"
          by (simp_all add: post_pair w)
        show "safe (ebind (evaluate_rhs run cx l m1)
             (\<lambda>(b, m2). ebind (evaluate_rhs run cx cond m2)
                (\<lambda>(c, m3).
                   let (s, m4) = unary_cell ''$reduce_bool'' c False 1 m3
                   in Inr (module_Mux a b s m4))))
          (post ds (bitstreamWidth (expr_type h)))"
        proof (rule safe_ebind_pair [OF ConditionalOp.IH(2)])
          fix b m2 assume "post ds (bitstreamWidth (type_of l)) (b, m2)"
          then have m2: "wires_ok ds m2" by (simp add: post_pair)
          show "safe (ebind (evaluate_rhs run cx cond m2)
                (\<lambda>(c, m3).
                   let (s, m4) = unary_cell ''$reduce_bool'' c False 1 m3
                   in Inr (module_Mux a b s m4)))
             (post ds (bitstreamWidth (expr_type h)))"
            by (rule safe_ebind_pair [OF ihc [OF m2]])
               (simp add: post_alt case_prod_beta module_Mux_ok unary_cell_ok a)
        qed (use wt m1 in simp_all)
      qed (use wt ConditionalOp.prems in simp_all)
      with False show ?thesis by simp
    qed
    then show ?thesis
      unfolding conds evaluate_rhs.simps type_of_def info.simps
      by (rule safe_const_done) (use ConditionalOp.prems in \<open>simp_all add: conds\<close>)
  next
    case False
    with conds_shape [of conds]
    have "evaluate_rhs run cx (ConditionalOp h conds l r) m = const_or h m (Inl Unimplemented)"
      by blast
    moreover have "const_ok h"
      using ConditionalOp.prems(1) by (rule well_typed_conds_const)
    ultimately show ?thesis
      using ConditionalOp.prems(2) by (simp add: type_of_def safe_const_or del: evaluate_rhs.simps)
  qed
next
  case (Replication h count a)
  have "safe (case count of
          None \<Rightarrow> Inl Unimplemented
        | Some reps \<Rightarrow>
            ebind (evaluate_rhs run cx a m)
              (\<lambda>(sig, m1). Inr (concat (replicate (nat reps) sig), m1)))
        (post ds (bitstreamWidth (expr_type h)))"
  proof (cases count)
    case None
    then show ?thesis by simp
  next
    case (Some reps)
    have "safe (ebind (evaluate_rhs run cx a m)
              (\<lambda>(sig, m1). Inr (concat (replicate (nat reps) sig), m1)))
            (post ds (bitstreamWidth (expr_type h)))"
      by (rule safe_ebind_pair [OF Replication.IH])
         (use Replication.prems Some in \<open>simp_all add: post_pair length_concat_replicate\<close>)
    with Some show ?thesis by simp
  qed
  then show ?case
    unfolding evaluate_rhs.simps type_of_def info.simps
    by (rule safe_const_done) (use Replication.prems in simp_all)
next
  case (MemberAccess h val member)
  have "safe (case member of
          Field bitOffset \<Rightarrow>
            ebind (evaluate_rhs run cx val m)
              (\<lambda>(sig, m1).
                 ebind (sig_extract sig (int bitOffset) (int (bitstreamWidth (expr_type h))))
                   (\<lambda>ret. Inr (ret, m1)))
        | _ \<Rightarrow> Inl Unimplemented) (post ds (bitstreamWidth (expr_type h)))"
  proof (cases member)
    case (Field bitOffset)
    have "safe (ebind (evaluate_rhs run cx val m)
              (\<lambda>(sig, m1).
                 ebind (sig_extract sig (int bitOffset) (int (bitstreamWidth (expr_type h))))
                   (\<lambda>ret. Inr (ret, m1))))
            (post ds (bitstreamWidth (expr_type h)))"
    proof (rule safe_ebind_pair [OF MemberAccess.IH])
      fix sig m1 assume "post ds (bitstreamWidth (type_of val)) (sig, m1)"
      then have m1: "wires_ok ds m1" by (simp add: post_pair)
      show "safe (ebind (sig_extract sig (int bitOffset) (int (bitstreamWidth (expr_type h))))
                   (\<lambda>ret. Inr (ret, m1)))
              (post ds (bitstreamWidth (expr_type h)))"
        by (rule safe_ebind [OF safe_sig_extract]) (simp add: post_pair m1)
    qed (use MemberAccess.prems in simp_all)
    with Field show ?thesis by simp
  qed simp_all
  then show ?case
    unfolding evaluate_rhs.simps type_of_def info.simps
    by (rule safe_const_only) (use MemberAccess.prems in simp_all)
next
  case (SystemCall h name arguments)
  have "safe (if name \<noteq> ''$signed'' then Inl Unimplemented
        else case arguments of
          [a] \<Rightarrow> evaluate_rhs run cx a m
        | _ \<Rightarrow> Inl Unimplemented) (post ds (bitstreamWidth (expr_type h)))"
  proof (cases "name = ''$signed'' \<and> (\<exists>a. arguments = [a])")
    case True
    then obtain a where a: "arguments = [a]" and n: "name = ''$signed''" by blast
    have "safe (evaluate_rhs run cx a m) (post ds (bitstreamWidth (type_of a)))"
      by (rule SystemCall.IH) (use SystemCall.prems a in simp_all)
    moreover have "bitstreamWidth (type_of a) = bitstreamWidth (expr_type h)"
      using SystemCall.prems(1) a n by simp
    ultimately show ?thesis by (simp add: a n)
  next
    case False
    then show ?thesis by (auto split: list.splits)
  qed
  then show ?case
    unfolding evaluate_rhs.simps type_of_def info.simps
    by (rule safe_const_done) (use SystemCall.prems in simp_all)
next
  case (SubroutineCall h kind formals retvar body arguments)
  have good: "good body" and ret: "map_of ds retvar = Some (bitstreamWidth (expr_type h))"
    and fm: "map (map_of ds) formals = map (\<lambda>a. Some (bitstreamWidth (type_of a))) arguments"
    using SubroutineCall.prems(1) by simp_all
  have l: "safe (evaluate_rhs_list run cx arguments (m\<lparr>autoidx := Suc (autoidx m)\<rparr>))
           (\<lambda>(sigs, m'). map length sigs = map (\<lambda>e. bitstreamWidth (type_of e)) arguments \<and>
                          wires_ok ds m')"
  proof (rule evaluate_rhs_list_safe)
    show "well_typed_list ds good arguments" using SubroutineCall.prems(1) by simp
    show "wires_ok ds (m\<lparr>autoidx := Suc (autoidx m)\<rparr>)" using SubroutineCall.prems(2) by simp
  qed (rule SubroutineCall.IH)
  have "safe (ebind (evaluate_rhs_list run cx arguments (m\<lparr>autoidx := Suc (autoidx m)\<rparr>))
          (\<lambda>(sigs, m1). ebind (run body (autoidx m) (zip formals sigs) m1)
             (\<lambda>(stg, m2).
                case wire m2 retvar of
                  None \<Rightarrow> Inl AssertionFailed
                | Some w \<Rightarrow> Inr (replace stg w, m2))))
        (post ds (bitstreamWidth (expr_type h)))"
  proof (rule safe_ebind_pair [OF l])
    fix sigs :: "SigSpec list" and m1 :: Module
    assume "case (sigs, m1) of (sigs, m') \<Rightarrow>
              map length sigs = map (\<lambda>e. bitstreamWidth (type_of e)) arguments \<and> wires_ok ds m'"
    then have lens: "map length sigs = map (\<lambda>e. bitstreamWidth (type_of e)) arguments"
      and m1: "wires_ok ds m1" by simp_all
    have r: "safe (run body (autoidx m) (zip formals sigs) m1) (\<lambda>(stg, m'). wires_ok ds m')"
      using run good m1 bound_ok_zip [OF fm lens] by (simp add: run_ok_def)
    show "safe (ebind (run body (autoidx m) (zip formals sigs) m1)
             (\<lambda>(stg, m2).
                case wire m2 retvar of
                  None \<Rightarrow> Inl AssertionFailed
                | Some w \<Rightarrow> Inr (replace stg w, m2)))
           (post ds (bitstreamWidth (expr_type h)))"
      by (rule safe_ebind_pair [OF r])
         (use ret in \<open>auto simp: post_pair wire_def wires_ok_iff wire_sig_def length_replace
                split: option.splits\<close>)
  qed
  then have "safe (if kind \<noteq> Function then Inl Unimplemented
        else if length arguments \<noteq> length formals then Inl AssertionFailed
        else ebind (evaluate_rhs_list run cx arguments (m\<lparr>autoidx := Suc (autoidx m)\<rparr>))
          (\<lambda>(sigs, m1). ebind (run body (autoidx m) (zip formals sigs) m1)
             (\<lambda>(stg, m2).
                case wire m2 retvar of
                  None \<Rightarrow> Inl AssertionFailed
                | Some w \<Rightarrow> Inr (replace stg w, m2))))
        (post ds (bitstreamWidth (expr_type h)))"
    by simp
  then show ?case
    unfolding evaluate_rhs.simps type_of_def info.simps
    by (rule safe_const_only) (use SubroutineCall.prems in simp_all)
next
  case (OtherExpression h)
  have "safe (Inl Unimplemented) (post ds (bitstreamWidth (expr_type h)))" by simp
  then show ?case
    unfolding evaluate_rhs.simps type_of_def info.simps
    by (rule safe_const_only) (use OtherExpression.prems in simp_all)
qed


text \<open>
  C3: on a consistently typed expression, in a module that has the declared wires, with
  arguments bound at their declared widths and function bodies whose lowering is itself
  safe, the width assertion at the end of \<open>evaluate_rhs\<close> does not fail, and a returned
  signal is exactly as wide as the bitstream width of the expression's type. This covers
  every kind the lowering supports, the two that return without passing the assertion
  (member access and function calls) included.
\<close>

theorem evaluate_rhs_width:
  assumes "well_typed ds good e" and "wires_ok ds m" and "args_ok ds cx"
    and "run_ok ds good run"
  shows "evaluate_rhs run cx e m \<noteq> Inl WidthAssertionFailed \<and>
         (\<forall>sig m'. evaluate_rhs run cx e m = Inr (sig, m') \<longrightarrow>
            length sig = bitstreamWidth (type_of e))"
  using evaluate_rhs_safe [OF assms(4) assms(3) assms(1) assms(2)]
  by (cases "evaluate_rhs run cx e m") (auto simp: post_def)

section \<open>Properties of the procedural lowering\<close>

lemma concat_chunks: "concat (chunks xs) = xs"
  by (induction xs) (auto split: list.splits)

lemma set_sort_and_unify: "set (sort_and_unify xs) = set xs"
  by (simp add: sort_and_unify_def)


lemma dict_count_iff: "dict_count d k \<longleftrightarrow> k \<in> fst ` set d"
  by (simp add: dict_count_def map_of_eq_None_iff)

lemma map_of_dict_set: "map_of (dict_set k v d) = (map_of d)(k \<mapsto> v)"
  by (simp add: dict_set_def update_conv')

lemma keys_dict_set: "fst ` set (dict_set k v d) = insert k (fst ` set d)"
  by (simp add: dict_set_def dom_update)

lemma map_of_dict_set_all_other:
  "k \<notin> set ks \<Longrightarrow> map_of (dict_set_all ks vs d) k = map_of d k"
  by (induction ks vs d rule: dict_set_all.induct) (auto simp: map_of_dict_set)

lemma keys_dict_set_all:
  "length ks = length vs \<Longrightarrow> fst ` set (dict_set_all ks vs d) = fst ` set d \<union> set ks"
  by (induction ks vs d rule: dict_set_all.induct) (auto simp: keys_dict_set)

lemma length_wire_sig': "length (wire_sig n w) = w"
  by (simp add: wire_sig_def)

lemma bind_fresh_other:
  "k \<notin> set (concat cs) \<Longrightarrow> map_of (fst (bind_fresh cs d m)) k = map_of d k"
  by (induction cs d m rule: bind_fresh.induct)
     (auto simp: addWire_new_def map_of_dict_set_all_other split: prod.splits)

lemma bind_fresh_keys:
  "fst ` set (fst (bind_fresh cs d m)) = fst ` set d \<union> set (concat cs)"
  by (induction cs d m rule: bind_fresh.induct)
     (auto simp: addWire_new_def keys_dict_set_all length_wire_sig' split: prod.splits)

lemma staging_signal_Inr:
  assumes "staging_signal lvalue v = Inr (r, v')"
  shows "\<not> list_ex is_const_bit lvalue"
    and "staging v' = fst (bind_fresh (chunks (sort_and_unify
            (filter (\<lambda>b. \<not> dict_count (staging v) b) lvalue))) (staging v) (module v))"
    and "r = replace (staging v') lvalue"
  using assms
  by (auto simp: staging_signal_def Let_def split: if_splits prod.splits)

lemma staging_signal_keeps:
  assumes "staging_signal lvalue v = Inr (r, v')" and "map_of (staging v) b = Some s"
  shows "map_of (staging v') b = Some s"
proof -
  have "dict_count (staging v) b" using assms(2) by (simp add: dict_count_def)
  then have "b \<notin> set (concat (chunks (sort_and_unify
            (filter (\<lambda>b. \<not> dict_count (staging v) b) lvalue))))"
    by (simp add: concat_chunks set_sort_and_unify)
  then show ?thesis
    using staging_signal_Inr(2) [OF assms(1)] assms(2) by (simp add: bind_fresh_other)
qed

lemma staging_signal_covers:
  assumes "staging_signal lvalue v = Inr (r, v')" and "b \<in> set lvalue"
  shows "dict_count (staging v') b"
  using staging_signal_Inr(2) [OF assms(1)] assms(2)
  by (auto simp: dict_count_iff bind_fresh_keys concat_chunks set_sort_and_unify)

lemma staging_signal_again:
  assumes "staging_signal lvalue v = Inr (r, v')"
  shows "staging_signal lvalue v' = Inr (r, v')"
proof -
  have "filter (\<lambda>b. \<not> dict_count (staging v') b) lvalue = []"
    using staging_signal_covers [OF assms] by (simp add: filter_empty_conv)
  then show ?thesis
    using staging_signal_Inr(1,3) [OF assms]
    by (simp add: staging_signal_def sort_and_unify_def)
qed

text \<open>
  C10: a successful \<open>staging_signal\<close> keeps every binding the staging map already
  had, binds every bit of its argument, and returns for each bit the staging bit it is
  bound to. Calling it again on the same bits returns the same signal and changes
  nothing, and any later call returns, for a bit it shares with this one, the same
  staging bit.
\<close>

theorem staging_signal_stable:
  assumes "staging_signal lvalue v = Inr (r, v')"
  shows "(\<forall>b s. map_of (staging v) b = Some s \<longrightarrow> map_of (staging v') b = Some s) \<and>
         (\<forall>b \<in> set lvalue. dict_count (staging v') b) \<and>
         r = map (dict_at (staging v')) lvalue \<and>
         staging_signal lvalue v' = Inr (r, v') \<and>
         (\<forall>lvalue2 r2 v2. staging_signal lvalue2 v' = Inr (r2, v2) \<longrightarrow>
            (\<forall>i < length lvalue. \<forall>j < length lvalue2.
               lvalue2 ! j = lvalue ! i \<longrightarrow> r2 ! j = r ! i))"
proof (intro conjI allI impI ballI)
  fix b s assume "map_of (staging v) b = Some s"
  then show "map_of (staging v') b = Some s" by (rule staging_signal_keeps [OF assms])
next
  fix b assume "b \<in> set lvalue"
  then show "dict_count (staging v') b" by (rule staging_signal_covers [OF assms])
next
  show "r = map (dict_at (staging v')) lvalue"
    using staging_signal_Inr(3) [OF assms] by (simp add: replace_def)
next
  show "staging_signal lvalue v' = Inr (r, v')" by (rule staging_signal_again [OF assms])
next
  fix lvalue2 r2 v2 i j
  assume s2: "staging_signal lvalue2 v' = Inr (r2, v2)"
    and i: "i < length lvalue" and j: "j < length lvalue2" and e: "lvalue2 ! j = lvalue ! i"
  have "dict_count (staging v') (lvalue ! i)"
    using staging_signal_covers [OF assms] i by simp
  then obtain s where s: "map_of (staging v') (lvalue ! i) = Some s"
    by (auto simp: dict_count_def)
  have s': "map_of (staging v2) (lvalue ! i) = Some s"
    by (rule staging_signal_keeps [OF s2 s])
  have "r ! i = s"
    using staging_signal_Inr(3) [OF assms] i s by (simp add: replace_def dict_at_def)
  moreover have "r2 ! j = s"
    using staging_signal_Inr(3) [OF s2] j s' e by (simp add: replace_def dict_at_def)
  ultimately show "r2 ! j = r ! i" by simp
qed


lemma action_bits_append: "action_bits (xs @ ys) = action_bits xs @ action_bits ys"
  by (simp add: action_bits_def)

lemma action_bits_to: "action_bits (map (\<lambda>c. (c, replace st c)) cs)
    = map (\<lambda>k. (k, dict_at st k)) (concat cs)"
  by (induction cs) (simp_all add: action_bits_def replace_def zip_map2 zip_same_conv_map)

lemma action_bits_from: "action_bits (map (\<lambda>c. (replace st c, c)) cs)
    = map (\<lambda>k. (dict_at st k, k)) (concat cs)"
  by (induction cs) (simp_all add: action_bits_def replace_def zip_map1 zip_same_conv_map)

lemma commit_chunks_syncs:
  "syncs (commit_chunks st cs p)
     = map (\<lambda>r. r\<lparr>sync_actions := sync_actions r @ map (\<lambda>c. (c, replace st c)) cs\<rparr>) (syncs p)"
proof (induction cs arbitrary: p)
  case Nil
  show ?case by (simp add: map_idI)
next
  case (Cons c cs)
  show ?case
    by (simp add: Cons.IH Let_def push_action_def push_sync_action_def)
qed

lemma commit_chunks_root:
  "cr_actions (case_rules (commit_chunks st cs p) root_case)
     = cr_actions (case_rules p root_case) @ map (\<lambda>c. (replace st c, c)) cs"
  by (induction cs arbitrary: p) (simp_all add: Let_def push_action_def)

lemma commit_chunks_other:
  "r \<noteq> root_case \<Longrightarrow> case_rules (commit_chunks st cs p) r = case_rules p r"
  by (induction cs arbitrary: p) (simp_all add: Let_def push_action_def)

lemma keys_dict_items: "set (map fst (dict_items d)) = fst ` set d"
  by (simp add: dict_items_def comp_def)

lemma staged_pairs:
  "(\<lambda>k. (k, dict_at d k)) ` fst ` set d = {(b, s). map_of d b = Some s}"
proof -
  have "fst ` set d = dom (map_of d)" by (simp add: dom_map_of_conv_image_fst)
  then show ?thesis by (auto simp: dict_at_def image_iff dom_def split: option.splits)
qed

lemma staged_pairs_swap:
  "(\<lambda>k. (dict_at d k, k)) ` fst ` set d = {(s, b). map_of d b = Some s}"
proof -
  have "fst ` set d = dom (map_of d)" by (simp add: dom_map_of_conv_image_fst)
  then show ?thesis by (auto simp: dict_at_def image_iff dom_def split: option.splits)
qed

text \<open>
  C8: \<open>staging_done\<close> appends the same actions to every sync rule, and actions to the
  root case, such that the bit pairs of the former are exactly the pairs (original bit,
  its staging bit) of the staging map and the bit pairs of the latter exactly the
  pairs (staging bit, original bit). So every staged bit is loaded from its staging bit
  in each sync rule, its staging bit is given the original bit's value in the root
  case, and no other bit occurs in what is appended.
\<close>

theorem staging_done_commits:
  "\<exists>sync_new root_new.
     syncs (proc (staging_done v))
       = map (\<lambda>r. r\<lparr>sync_actions := sync_actions r @ sync_new\<rparr>) (syncs (proc v)) \<and>
     cr_actions (case_rules (proc (staging_done v)) root_case)
       = cr_actions (case_rules (proc v) root_case) @ root_new \<and>
     set (action_bits sync_new) = {(b, s). map_of (staging v) b = Some s} \<and>
     set (action_bits root_new) = {(s, b). map_of (staging v) b = Some s}"
proof -
  let ?cs = "chunks (sort_and_unify (map fst (dict_items (staging v))))"
  have cc: "set (concat ?cs) = fst ` set (staging v)"
    by (simp only: concat_chunks set_sort_and_unify keys_dict_items)
  have 1: "syncs (proc (staging_done v))
       = map (\<lambda>r. r\<lparr>sync_actions := sync_actions r @ map (\<lambda>c. (c, replace (staging v) c)) ?cs\<rparr>)
           (syncs (proc v))"
    by (simp add: staging_done_def Let_def commit_chunks_syncs)
  have 2: "cr_actions (case_rules (proc (staging_done v)) root_case)
       = cr_actions (case_rules (proc v) root_case) @ map (\<lambda>c. (replace (staging v) c, c)) ?cs"
    by (simp add: staging_done_def Let_def commit_chunks_root)
  have 3: "set (action_bits (map (\<lambda>c. (c, replace (staging v) c)) ?cs))
       = {(b, s). map_of (staging v) b = Some s}"
    by (simp only: action_bits_to set_map cc staged_pairs)
  have 4: "set (action_bits (map (\<lambda>c. (replace (staging v) c, c)) ?cs))
       = {(s, b). map_of (staging v) b = Some s}"
    by (simp only: action_bits_from set_map cc staged_pairs_swap)
  from 1 2 3 4 show ?thesis by blast
qed

lemma pool_add_wires: "\<not> list_ex is_const_bit sig \<Longrightarrow> pool_add sig pool = pool \<union> set sig"
  by (auto simp: pool_add_def list_ex_iff)

lemma pool_check_any_iff:
  "\<not> list_ex is_const_bit sig \<Longrightarrow> pool_check_any pool sig \<longleftrightarrow> set sig \<inter> pool \<noteq> {}"
  by (auto simp: pool_check_any_def list_ex_iff)

lemma staging_signal_frame:
  assumes "staging_signal lvalue v = Inr (r, v')"
  shows "assigned_blocking v' = assigned_blocking v"
    and "assigned_nonblocking v' = assigned_nonblocking v"
    and "proc v' = proc v" and "ctx v' = ctx v" and "current_case v' = current_case v"
  using assms
  by (auto simp: staging_signal_def Let_def split: if_splits prod.splits)

lemma fresh_visitor_simps:
  "staging fresh_visitor = []" "module fresh_visitor = empty_module"
  "assigned_blocking fresh_visitor = {}" "assigned_nonblocking fresh_visitor = {}"
  "rvalue_subs (ctx fresh_visitor) = []"
  by (simp_all add: fresh_visitor_def ProceduralVisitor_init_def Let_def split: prod.splits)

theorem staging_signal_stable_witness:
  "\<exists>r v'. staging_signal [WireBit 7 0, WireBit 7 1] fresh_visitor = Inr (r, v') \<and>
      r = [WireBit 0 0, WireBit 0 1] \<and>
      map_of (staging v') (WireBit 7 1) = Some (WireBit 0 1) \<and>
      staging_signal [WireBit 7 0, WireBit 7 1] v' = Inr (r, v')"
proof -
  let ?st = "dict_set_all [WireBit 7 0, WireBit 7 1] (wire_sig 0 2) []"
  let ?v = "fresh_visitor\<lparr>module := snd (addWire_new 2 empty_module), staging := ?st\<rparr>"
  have h: "staging_signal [WireBit 7 0, WireBit 7 1] fresh_visitor
             = Inr (replace ?st [WireBit 7 0, WireBit 7 1], ?v)"
    by (simp add: staging_signal_def sort_and_unify_def dict_count_def Let_def
          fresh_visitor_simps numeral_2_eq_2 addWire_new_def empty_module_def)
  have r: "replace ?st [WireBit 7 0, WireBit 7 1] = [WireBit 0 0, WireBit 0 1]"
    by (simp add: replace_def dict_at_def dict_set_def wire_sig_def upt_rec)
  have m: "map_of ?st (WireBit 7 1) = Some (WireBit 0 1)"
    by (simp add: dict_set_def wire_sig_def upt_rec)
  show ?thesis
    using staging_signal_stable [OF h] h r m by simp
qed

subsection \<open>The switch builder\<close>








lemma finish_defaults_frame:
  "autoidx (module (finish_defaults par cs v)) = autoidx (module v) + length cs"
  "syncs (proc (finish_defaults par cs v)) = syncs (proc v)"
  "staging (finish_defaults par cs v) = staging v"
  by (induction cs arbitrary: v; simp add: addWire_new_def Let_def push_action_def)+






lemma finish_branches_frame:
  "ctx (finish_branches brs v) = ctx v" "module (finish_branches brs v) = module v"
  by (induction brs v rule: finish_branches.induct) simp_all





lemma finish_unfold:
  "finish b v = finish_branches (branch_updates b) (finish_defaults (parent b) (finish_chunks b) v)"
  by (simp add: finish_def finish_chunks_def Let_def)














lemma branch_Inr:
  assumes "branch b compare f v = Inr (b', v')"
  shows "\<exists>v1. f (fst (branch_enter b compare v)) (snd (branch_enter b compare v)) = Inr v1 \<and>
           b' = b\<lparr>branch_updates := branch_updates b @
                  [(fst (branch_enter b compare v),
                    (sort_bits (changed_keys (rvalue_subs_save b) (rvalue_subs (ctx v1))),
                     replace (rvalue_subs (ctx v1))
                       (sort_bits (changed_keys (rvalue_subs_save b) (rvalue_subs (ctx v1))))))]\<rparr> \<and>
           v' = v1\<lparr>ctx := (ctx v1)\<lparr>rvalue_subs := rvalue_subs_save b\<rparr>\<rparr>"
  using assms
  by (auto simp: branch_def ebind_def Let_def split: prod.splits sum.splits)

subsection \<open>What visiting a statement keeps\<close>


lemma keeps_refl: "keeps v v"
  by (simp add: keeps_def)

lemma keeps_trans: "keeps v v1 \<Longrightarrow> keeps v1 v2 \<Longrightarrow> keeps v v2"
  by (simp add: keeps_def)

lemma keeps_same:
  "syncs (proc v') = syncs (proc v) \<Longrightarrow> staging v' = staging v \<Longrightarrow>
   assigned_blocking v' = assigned_blocking v \<Longrightarrow>
   assigned_nonblocking v' = assigned_nonblocking v \<Longrightarrow> keeps v v'"
  by (simp add: keeps_def pools_disjoint_def)

lemma keeps_from_same:
  "syncs (proc v0) = syncs (proc v) \<Longrightarrow> staging v0 = staging v \<Longrightarrow>
   assigned_blocking v0 = assigned_blocking v \<Longrightarrow>
   assigned_nonblocking v0 = assigned_nonblocking v \<Longrightarrow> keeps v0 v' \<Longrightarrow> keeps v v'"
  by (simp add: keeps_def pools_disjoint_def)

lemma syncs_push_action [simp]: "syncs (push_action c a p) = syncs p"
  by (simp add: push_action_def)

lemma syncs_push_switch [simp]: "syncs (push_switch c s p) = syncs p"
  by (simp add: push_switch_def)

lemma syncs_push_case [simp]: "syncs (push_case s c p) = syncs p"
  by (simp add: push_case_def)

lemma syncs_new_CaseRule [simp]: "syncs (snd (new_CaseRule p)) = syncs p"
  by (simp add: new_CaseRule_def)

lemma syncs_new_SwitchRule [simp]: "syncs (snd (new_SwitchRule p)) = syncs p"
  by (simp add: new_SwitchRule_def)

lemma commit_assignment_Inr:
  assumes "commit_assignment blocking lvalue rv v = Inr v'"
  shows "\<exists>tg v3.
           staging_signal lvalue
             (if blocking
              then v\<lparr>ctx := (ctx v)\<lparr>rvalue_subs := dict_set_all lvalue rv (rvalue_subs (ctx v))\<rparr>,
                     assigned_blocking := pool_add lvalue (assigned_blocking v)\<rparr>
              else v\<lparr>assigned_nonblocking := pool_add lvalue (assigned_nonblocking v)\<rparr>)
             = Inr (tg, v3) \<and>
           v' = v3\<lparr>proc := push_action (current_case v3) (tg, rv) (proc v3)\<rparr> \<and>
           \<not> pool_check_any (if blocking then assigned_nonblocking v else assigned_blocking v) lvalue"
  using assms
  by (cases blocking)
     (auto simp: commit_assignment_def ebind_def Let_def split: if_splits sum.splits)

lemma commit_assignment_pools:
  assumes "commit_assignment blocking lvalue rv v = Inr v'"
  shows "assigned_blocking v' =
           (if blocking then assigned_blocking v \<union> set lvalue else assigned_blocking v)"
    and "assigned_nonblocking v' =
           (if blocking then assigned_nonblocking v else assigned_nonblocking v \<union> set lvalue)"
    and "set lvalue \<inter> (if blocking then assigned_nonblocking v else assigned_blocking v) = {}"
proof -
  from commit_assignment_Inr [OF assms] obtain tg v3 where
    st: "staging_signal lvalue
             (if blocking
              then v\<lparr>ctx := (ctx v)\<lparr>rvalue_subs := dict_set_all lvalue rv (rvalue_subs (ctx v))\<rparr>,
                     assigned_blocking := pool_add lvalue (assigned_blocking v)\<rparr>
              else v\<lparr>assigned_nonblocking := pool_add lvalue (assigned_nonblocking v)\<rparr>)
             = Inr (tg, v3)"
    and v': "v' = v3\<lparr>proc := push_action (current_case v3) (tg, rv) (proc v3)\<rparr>"
    and chk: "\<not> pool_check_any (if blocking then assigned_nonblocking v else assigned_blocking v) lvalue"
    by blast
  have nc: "\<not> list_ex is_const_bit lvalue"
    using st by (auto simp: staging_signal_def split: if_splits)
  show "assigned_blocking v' =
           (if blocking then assigned_blocking v \<union> set lvalue else assigned_blocking v)"
    using staging_signal_frame(1) [OF st] v' by (simp add: pool_add_wires [OF nc])
  show "assigned_nonblocking v' =
           (if blocking then assigned_nonblocking v else assigned_nonblocking v \<union> set lvalue)"
    using staging_signal_frame(2) [OF st] v' by (simp add: pool_add_wires [OF nc])
  show "set lvalue \<inter> (if blocking then assigned_nonblocking v else assigned_blocking v) = {}"
    using chk by (simp add: pool_check_any_iff [OF nc])
qed

lemma commit_assignment_keeps:
  assumes "commit_assignment blocking lvalue rv v = Inr v'"
  shows "keeps v v'"
proof -
  from commit_assignment_Inr [OF assms] obtain tg v3 where
    st: "staging_signal lvalue
             (if blocking
              then v\<lparr>ctx := (ctx v)\<lparr>rvalue_subs := dict_set_all lvalue rv (rvalue_subs (ctx v))\<rparr>,
                     assigned_blocking := pool_add lvalue (assigned_blocking v)\<rparr>
              else v\<lparr>assigned_nonblocking := pool_add lvalue (assigned_nonblocking v)\<rparr>)
             = Inr (tg, v3)"
    and v': "v' = v3\<lparr>proc := push_action (current_case v3) (tg, rv) (proc v3)\<rparr>"
    by blast
  have 1: "syncs (proc v') = syncs (proc v)"
    using staging_signal_frame(3) [OF st] v' by (simp split: if_splits)
  have 2: "map_of (staging v') b = Some x" if "map_of (staging v) b = Some x" for b x
    using staging_signal_keeps [OF st, of b x] that v' by (simp split: if_splits)
  have 3: "pools_disjoint v'" if "pools_disjoint v"
    using that commit_assignment_pools [OF assms]
    by (auto simp: pools_disjoint_def split: if_splits)
  from 1 2 3 show ?thesis by (simp add: keeps_def)
qed

lemma handle_assignment_keeps:
  assumes "handle_assignment run nb left right v = Inr v'"
  shows "keeps v v'"
proof -
  from assms obtain lv rv m3 where
    "commit_assignment (\<not> nb) lv rv (v\<lparr>module := m3\<rparr>) = Inr v'"
    by (auto simp: handle_assignment_def ebind_def Let_def split: sum.splits prod.splits if_splits)
  from commit_assignment_keeps [OF this] show ?thesis
    by (rule keeps_from_same [rotated -1]) simp_all
qed

lemma context_enable_keeps: "keeps v (snd (context_enable v))"
  by (rule keeps_same) (simp_all add: context_enable_def Let_def split: prod.splits)

lemma handle_display_keeps:
  assumes "handle_display run arguments v = Inr v'"
  shows "keeps v v'"
proof -
  let ?v1 = "v\<lparr>module := (module v)\<lparr>autoidx := Suc (autoidx (module v))\<rparr>\<rparr>"
  from assms obtain m c where
    v': "v' = (snd (context_enable ?v1))\<lparr>print_priority := print_priority (snd (context_enable ?v1)) - 1,
                 module := m\<lparr>cells := cells m @ [c]\<rparr>\<rparr>"
    by (auto simp: handle_display_def ebind_def Let_def split: sum.splits prod.splits if_splits)
  have "keeps ?v1 (snd (context_enable ?v1))" by (rule context_enable_keeps)
  then show ?thesis unfolding v' by (simp add: keeps_def pools_disjoint_def)
qed

lemma SwitchBuilder_init_keeps: "keeps v (snd (SwitchBuilder_init par sig v))"
  by (rule keeps_same)
     (simp_all add: SwitchBuilder_init_def Let_def new_SwitchRule_def push_switch_def
        split: prod.splits)

lemma branch_enter_keeps: "keeps v (snd (branch_enter b cmp v))"
  by (rule keeps_same)
     (simp_all add: branch_enter_def Let_def new_CaseRule_def push_case_def split: prod.splits)

lemma branch_keeps:
  assumes "branch b cmp f v = Inr (b', v')"
    and "\<And>rule vv vv'. f rule vv = Inr vv' \<Longrightarrow> keeps vv vv'"
  shows "keeps v v'"
proof -
  from branch_Inr [OF assms(1)] obtain v1 where
    f: "f (fst (branch_enter b cmp v)) (snd (branch_enter b cmp v)) = Inr v1"
    and v': "v' = v1\<lparr>ctx := (ctx v1)\<lparr>rvalue_subs := rvalue_subs_save b\<rparr>\<rparr>"
    by blast
  have "keeps v (snd (branch_enter b cmp v))" by (rule branch_enter_keeps)
  moreover have "keeps (snd (branch_enter b cmp v)) v1" by (rule assms(2) [OF f])
  moreover have "keeps v1 v'" unfolding v' by (rule keeps_same) simp_all
  ultimately show ?thesis by (blast intro: keeps_trans)
qed

lemma finish_defaults_same:
  "assigned_blocking (finish_defaults par cs v) = assigned_blocking v"
  "assigned_nonblocking (finish_defaults par cs v) = assigned_nonblocking v"
  by (induction cs arbitrary: v; simp add: addWire_new_def Let_def)+

lemma finish_branches_same:
  "syncs (proc (finish_branches brs v)) = syncs (proc v)"
  "staging (finish_branches brs v) = staging v"
  "assigned_blocking (finish_branches brs v) = assigned_blocking v"
  "assigned_nonblocking (finish_branches brs v) = assigned_nonblocking v"
proof (induction brs arbitrary: v)
  case Nil
  { case 1 show ?case by simp }
  { case 2 show ?case by simp }
  { case 3 show ?case by simp }
  { case 4 show ?case by simp }
next
  case (Cons br brs)
  obtain rule target source where br: "br = (rule, (target, source))" by (cases br) auto
  have f: "syncs (fold (push_action rule) acts p) = syncs p" for acts p
    by (induction acts arbitrary: p) simp_all
  { case 1 show ?case by (simp add: br Cons.IH(1) f) }
  { case 2 show ?case by (simp add: br Cons.IH(2)) }
  { case 3 show ?case by (simp add: br Cons.IH(3)) }
  { case 4 show ?case by (simp add: br Cons.IH(4)) }
qed

lemma finish_keeps': "keeps v (finish b v)"
  by (rule keeps_same)
     (simp_all add: finish_unfold finish_branches_same finish_defaults_frame finish_defaults_same)

lemma descend_keeps: "keeps v (descend cs v)"
  by (rule keeps_same)
     (simp_all add: descend_def Let_def new_SwitchRule_def new_CaseRule_def push_switch_def
        push_case_def split: prod.splits)

lemma keeps_module: "keeps v (v\<lparr>module := m\<rparr>)"
  by (rule keeps_same) simp_all

lemma keeps_current_case: "keeps (vv\<lparr>current_case := r\<rparr>) v' \<Longrightarrow> keeps vv v'"
  by (simp add: keeps_def pools_disjoint_def)


lemma ebind_Inr: "ebind m f = Inr y \<Longrightarrow> \<exists>x. m = Inr x \<and> f x = Inr y"
  by (cases m) (simp_all add: ebind_def)

lemma ebind_pair_Inr:
  "ebind m (\<lambda>(a, b). f a b) = Inr y \<Longrightarrow> \<exists>a b. m = Inr (a, b) \<and> f a b = Inr y"
  by (cases m) (auto simp: ebind_def)

lemma visit_list_keeps:
  assumes "\<And>s v v'. s \<in> set ss \<Longrightarrow> visit run s v = Inr v' \<Longrightarrow> keeps v v'"
    and "visit_list run ss v = Inr v'"
  shows "keeps v v'"
  using assms
proof (induction ss arbitrary: v)
  case Nil
  then show ?case by (simp add: keeps_refl)
next
  case (Cons s ss)
  from Cons.prems(2) obtain v1 where 1: "visit run s v = Inr v1" and 2: "visit_list run ss v1 = Inr v'"
    by (auto dest!: ebind_Inr)
  have "keeps v v1" by (rule Cons.prems(1) [of s]) (simp_all add: 1)
  moreover have "keeps v1 v'"
  proof (rule Cons.IH [OF _ 2])
    fix s' v v' assume "s' \<in> set ss" "visit run s' v = Inr v'"
    then show "keeps v v'" by (intro Cons.prems(1) [of s']) simp_all
  qed
  ultimately show ?case by (rule keeps_trans)
qed

lemma branch_visit_keeps:
  assumes "\<And>v v'. visit run s v = Inr v' \<Longrightarrow> keeps v v'"
    and "branch b cmp (\<lambda>rule vv. visit run s (vv\<lparr>current_case := rule\<rparr>)) v = Inr (b', v')"
  shows "keeps v v'"
  using assms(2)
proof (rule branch_keeps)
  fix rule vv vv'
  assume "visit run s (vv\<lparr>current_case := rule\<rparr>) = Inr vv'"
  then have "keeps (vv\<lparr>current_case := rule\<rparr>) vv'" by (rule assms(1))
  then show "keeps vv vv'" by (rule keeps_current_case)
qed

lemma visit_items_keeps:
  assumes "\<And>es s v v'. (es, s) \<in> set items \<Longrightarrow> visit run s v = Inr v' \<Longrightarrow> keeps v v'"
    and "visit_items run w items b v = Inr (b', v')"
  shows "keeps v v'"
  using assms
proof (induction items arbitrary: b v)
  case Nil
  then show ?case by (simp add: keeps_refl)
next
  case (Cons item items)
  obtain es s where item: "item = (es, s)" by (cases item) auto
  from Cons.prems(2) have "ebind (evaluate_compares run (ctx v) w es (module v))
       (\<lambda>(compares, m1).
          if compares = [] then Inl Unimplemented
          else ebind (branch b compares
                        (\<lambda>rule vv. visit run s (vv\<lparr>current_case := rule\<rparr>))
                        (v\<lparr>module := m1\<rparr>))
                 (\<lambda>(b1, v1). visit_items run w items b1 v1)) = Inr (b', v')"
    by (simp add: item)
  then obtain cmps m1 where
    "ebind (branch b cmps (\<lambda>rule vv. visit run s (vv\<lparr>current_case := rule\<rparr>)) (v\<lparr>module := m1\<rparr>))
       (\<lambda>(b1, v1). visit_items run w items b1 v1) = Inr (b', v')"
    by (auto dest!: ebind_Inr split: if_splits)
  then obtain b1 v1 where
    1: "branch b cmps (\<lambda>rule vv. visit run s (vv\<lparr>current_case := rule\<rparr>)) (v\<lparr>module := m1\<rparr>)
          = Inr (b1, v1)"
    and 2: "visit_items run w items b1 v1 = Inr (b', v')"
    by (auto dest!: ebind_Inr)
  have "keeps (v\<lparr>module := m1\<rparr>) v1"
  proof (rule branch_visit_keeps [OF _ 1])
    fix v v' assume "visit run s v = Inr v'"
    then show "keeps v v'" by (intro Cons.prems(1) [of es s]) (simp_all add: item)
  qed
  then have "keeps v v1" by (rule keeps_trans [OF keeps_module])
  moreover have "keeps v1 v'"
  proof (rule Cons.IH [OF _ 2])
    fix es' s' v v' assume "(es', s') \<in> set items" "visit run s' v = Inr v'"
    then show "keeps v v'" by (intro Cons.prems(1) [of es' s']) simp_all
  qed
  ultimately show ?case by (rule keeps_trans)
qed

lemma optional_branch_keeps:
  assumes "\<And>s v v'. s \<in> set_option dflt \<Longrightarrow> visit run s v = Inr v' \<Longrightarrow> keeps v v'"
    and "(case dflt of None \<Rightarrow> Inr (b, v)
          | Some stmt \<Rightarrow> branch b [] (\<lambda>rule vv. visit run stmt (vv\<lparr>current_case := rule\<rparr>)) v)
         = Inr (b', v')"
  shows "keeps v v'"
proof (cases dflt)
  case None
  then show ?thesis using assms(2) by (simp add: keeps_refl)
next
  case (Some stmt)
  have b: "branch b [] (\<lambda>rule vv. visit run stmt (vv\<lparr>current_case := rule\<rparr>)) v = Inr (b', v')"
    using assms(2) Some by simp
  show ?thesis
  proof (rule branch_visit_keeps [OF _ b])
    fix v v' assume "visit run stmt v = Inr v'"
    then show "keeps v v'" by (intro assms(1) [of stmt]) (simp_all add: Some)
  qed
qed

text \<open>The tail both the conditional and the case statement end with.\<close>

lemma switch_tail_keeps:
  assumes "\<And>s v v'. s \<in> set_option dflt \<Longrightarrow> visit run s v = Inr v' \<Longrightarrow> keeps v v'"
    and "ebind (case dflt of None \<Rightarrow> Inr (b1, v2)
           | Some stmt \<Rightarrow> branch b1 [] (\<lambda>rule vv. visit run stmt (vv\<lparr>current_case := rule\<rparr>)) v2)
          (\<lambda>(b2, v3). Inr (descend cs (finish b2 v3))) = Inr v'"
  shows "keeps v2 v'"
proof -
  from assms(2) obtain b2 v3 where
    1: "(case dflt of None \<Rightarrow> Inr (b1, v2)
           | Some stmt \<Rightarrow> branch b1 [] (\<lambda>rule vv. visit run stmt (vv\<lparr>current_case := rule\<rparr>)) v2)
         = Inr (b2, v3)"
    and 2: "v' = descend cs (finish b2 v3)"
    by (auto dest!: ebind_Inr)
  have "keeps v2 v3" using assms(1) 1 by (rule optional_branch_keeps)
  moreover have "keeps v3 v'" unfolding 2 by (rule keeps_trans [OF finish_keeps' descend_keeps])
  ultimately show ?thesis by (rule keeps_trans)
qed

lemma conditional_shape:
  assumes "visit run (ConditionalStatement conds ifTrue ifFalse) v = Inr v'"
  shows "\<exists>cond. conds = [(cond, False)]"
proof (cases conds)
  case Nil
  with assms show ?thesis by simp
next
  case (Cons p rest)
  obtain c pat where p: "p = (c, pat)" by (cases p) auto
  show ?thesis
  proof (cases rest)
    case Nil
    with assms Cons p show ?thesis by (cases pat) simp_all
  next
    case (Cons q rest')
    with assms \<open>conds = p # rest\<close> p show ?thesis by simp
  qed
qed

lemma visit_keeps: "visit run s v = Inr v' \<Longrightarrow> keeps v v'"
proof (induction s arbitrary: v v')
  case (AssignmentStatement nb left right)
  then show ?case by (simp add: handle_assignment_keeps)
next
  case (CallStatement name arguments)
  then show ?case by (auto simp: keeps_refl handle_display_keeps split: if_splits)
next
  case (BlockStatement sequential body)
  then show ?case by (simp split: if_splits)
next
  case (StatementList stmts)
  show ?case
  proof (rule visit_list_keeps [of stmts run])
    fix s v v' assume "s \<in> set stmts" "visit run s v = Inr v'"
    then show "keeps v v'" by (rule StatementList.IH)
  next
    show "visit_list run stmts v = Inr v'" using StatementList.prems by simp
  qed
next
  case (ConditionalStatement conds ifTrue ifFalse)
  from conditional_shape [OF ConditionalStatement.prems] obtain cond
    where conds: "conds = [(cond, False)]" by blast
  from ConditionalStatement.prems have
    "ebind (evaluate_rhs run (Some (ctx v)) cond (module v))
       (\<lambda>(c, m1).
          let (condition, m2) = unary_cell ''$reduce_bool'' c False 1 m1;
              (b, v1) = SwitchBuilder_init (current_case v) condition (v\<lparr>module := m2\<rparr>)
          in ebind (branch b [[Bit S1]]
                      (\<lambda>rule vv. visit run ifTrue (vv\<lparr>current_case := rule\<rparr>)) v1)
               (\<lambda>(b1, v2).
                  ebind (case ifFalse of
                           None \<Rightarrow> Inr (b1, v2)
                         | Some stmt \<Rightarrow>
                             branch b1 []
                               (\<lambda>rule vv. visit run stmt (vv\<lparr>current_case := rule\<rparr>)) v2)
                    (\<lambda>(b2, v3). Inr (descend (current_case v) (finish b2 v3))))) = Inr v'"
    by (simp add: conds Let_def)
  then obtain c m1 where
    r: "(let (condition, m2) = unary_cell ''$reduce_bool'' c False 1 m1;
              (b, v1) = SwitchBuilder_init (current_case v) condition (v\<lparr>module := m2\<rparr>)
          in ebind (branch b [[Bit S1]]
                      (\<lambda>rule vv. visit run ifTrue (vv\<lparr>current_case := rule\<rparr>)) v1)
               (\<lambda>(b1, v2).
                  ebind (case ifFalse of
                           None \<Rightarrow> Inr (b1, v2)
                         | Some stmt \<Rightarrow>
                             branch b1 []
                               (\<lambda>rule vv. visit run stmt (vv\<lparr>current_case := rule\<rparr>)) v2)
                    (\<lambda>(b2, v3). Inr (descend (current_case v) (finish b2 v3))))) = Inr v'"
    by (auto dest!: ebind_Inr)
  obtain condition m2 where u: "unary_cell ''$reduce_bool'' c False 1 m1 = (condition, m2)"
    by (cases "unary_cell ''$reduce_bool'' c False 1 m1") auto
  obtain b v1 where i: "SwitchBuilder_init (current_case v) condition (v\<lparr>module := m2\<rparr>) = (b, v1)"
    by (cases "SwitchBuilder_init (current_case v) condition (v\<lparr>module := m2\<rparr>)") auto
  from r have "ebind (branch b [[Bit S1]]
                      (\<lambda>rule vv. visit run ifTrue (vv\<lparr>current_case := rule\<rparr>)) v1)
               (\<lambda>(b1, v2).
                  ebind (case ifFalse of
                           None \<Rightarrow> Inr (b1, v2)
                         | Some stmt \<Rightarrow>
                             branch b1 []
                               (\<lambda>rule vv. visit run stmt (vv\<lparr>current_case := rule\<rparr>)) v2)
                    (\<lambda>(b2, v3). Inr (descend (current_case v) (finish b2 v3)))) = Inr v'"
    using u i by simp
  then obtain b1 v2 where
    1: "branch b [[Bit S1]] (\<lambda>rule vv. visit run ifTrue (vv\<lparr>current_case := rule\<rparr>)) v1 = Inr (b1, v2)"
    and 2: "ebind (case ifFalse of None \<Rightarrow> Inr (b1, v2)
             | Some stmt \<Rightarrow> branch b1 [] (\<lambda>rule vv. visit run stmt (vv\<lparr>current_case := rule\<rparr>)) v2)
            (\<lambda>(b2, v3). Inr (descend (current_case v) (finish b2 v3))) = Inr v'"
    by (blast dest: ebind_pair_Inr)
  have "keeps v v1"
    using keeps_trans [OF keeps_module [of v m2]
        SwitchBuilder_init_keeps [of "v\<lparr>module := m2\<rparr>" "current_case v" condition]]
    by (simp add: i)
  moreover have "keeps v1 v2"
    by (rule branch_visit_keeps [OF _ 1]) (rule ConditionalStatement.IH(1))
  moreover have "keeps v2 v'"
    by (rule switch_tail_keeps [OF _ 2]) (rule ConditionalStatement.IH(2))
  ultimately show ?case by (blast intro: keeps_trans)
next
  case (CaseStatement normal selector items dflt)
  from CaseStatement.prems have
    "ebind (evaluate_rhs run (Some (ctx v)) selector (module v))
       (\<lambda>(dispatch, m1).
          let (b, v1) = SwitchBuilder_init (current_case v) dispatch (v\<lparr>module := m1\<rparr>)
          in ebind (visit_items run (length dispatch) items b v1)
               (\<lambda>(b1, v2).
                  ebind (case dflt of
                           None \<Rightarrow> Inr (b1, v2)
                         | Some stmt \<Rightarrow>
                             branch b1 []
                               (\<lambda>rule vv. visit run stmt (vv\<lparr>current_case := rule\<rparr>)) v2)
                    (\<lambda>(b2, v3). Inr (descend (current_case v) (finish b2 v3))))) = Inr v'"
    by (simp add: Let_def split: if_splits)
  then obtain dispatch m1 where
    r: "(let (b, v1) = SwitchBuilder_init (current_case v) dispatch (v\<lparr>module := m1\<rparr>)
          in ebind (visit_items run (length dispatch) items b v1)
               (\<lambda>(b1, v2).
                  ebind (case dflt of
                           None \<Rightarrow> Inr (b1, v2)
                         | Some stmt \<Rightarrow>
                             branch b1 []
                               (\<lambda>rule vv. visit run stmt (vv\<lparr>current_case := rule\<rparr>)) v2)
                    (\<lambda>(b2, v3). Inr (descend (current_case v) (finish b2 v3))))) = Inr v'"
    by (auto dest!: ebind_Inr)
  obtain b v1 where i: "SwitchBuilder_init (current_case v) dispatch (v\<lparr>module := m1\<rparr>) = (b, v1)"
    by (cases "SwitchBuilder_init (current_case v) dispatch (v\<lparr>module := m1\<rparr>)") auto
  from r have "ebind (visit_items run (length dispatch) items b v1)
               (\<lambda>(b1, v2).
                  ebind (case dflt of
                           None \<Rightarrow> Inr (b1, v2)
                         | Some stmt \<Rightarrow>
                             branch b1 []
                               (\<lambda>rule vv. visit run stmt (vv\<lparr>current_case := rule\<rparr>)) v2)
                    (\<lambda>(b2, v3). Inr (descend (current_case v) (finish b2 v3)))) = Inr v'"
    by (simp add: i)
  then obtain b1 v2 where
    1: "visit_items run (length dispatch) items b v1 = Inr (b1, v2)"
    and 2: "ebind (case dflt of None \<Rightarrow> Inr (b1, v2)
             | Some stmt \<Rightarrow> branch b1 [] (\<lambda>rule vv. visit run stmt (vv\<lparr>current_case := rule\<rparr>)) v2)
            (\<lambda>(b2, v3). Inr (descend (current_case v) (finish b2 v3))) = Inr v'"
    by (blast dest: ebind_pair_Inr)
  have "keeps v v1"
    using keeps_trans [OF keeps_module [of v m1]
        SwitchBuilder_init_keeps [of "v\<lparr>module := m1\<rparr>" "current_case v" dispatch]]
    by (simp add: i)
  moreover have "keeps v1 v2"
  proof (rule visit_items_keeps [OF _ 1])
    fix es s v v' assume "(es, s) \<in> set items" "visit run s v = Inr v'"
    then show "keeps v v'" by (intro CaseStatement.IH(1) [of "(es, s)" s]) simp_all
  qed
  moreover have "keeps v2 v'"
    by (rule switch_tail_keeps [OF _ 2]) (rule CaseStatement.IH(2))
  ultimately show ?case by (blast intro: keeps_trans)
qed (simp_all add: keeps_refl)


subsection \<open>The process of an always_comb block\<close>

lemma syncs_ProceduralVisitor_init: "syncs (proc (ProceduralVisitor_init m p md)) = syncs p"
  by (simp add: ProceduralVisitor_init_def Let_def new_SwitchRule_def new_CaseRule_def
        split: prod.splits)

lemma always_comb_Inr:
  assumes "handle_ProceduralBlockSymbol run AlwaysComb body m = Inr m'"
  shows "\<exists>v. visit run body
               (ProceduralVisitor_init (m\<lparr>autoidx := Suc (autoidx m)\<rparr>)
                  ((new_process (autoidx m))
                     \<lparr>syncs := [\<lparr>sync_type = STa, sync_signal = [], sync_actions = []\<rparr>]\<rparr>) ALWAYS)
             = Inr v \<and> m' = add_process (staging_done v)"
  using assms by (auto simp: handle_ProceduralBlockSymbol_def Let_def dest!: ebind_Inr)

text \<open>
  C9: when the handler of an \<open>always_comb\<close> block returns, the process it has added, the
  last of the module, has exactly one sync rule; the rule is of the implicit kind
  \<open>STa\<close> with an empty signal, so none of the process's rules is edge-sensitive. The body
  may contain any statements: none of them touches the sync rules, and the commit of
  the staged bits only appends actions to them.
\<close>

theorem always_comb_single_sync:
  assumes "handle_ProceduralBlockSymbol run AlwaysComb body m = Inr m'"
  shows "processes m' \<noteq> [] \<and>
         map sync_type (syncs (last (processes m'))) = [STa] \<and>
         map sync_signal (syncs (last (processes m'))) = [[]] \<and>
         list_all (\<lambda>r. sync_type r \<notin> {STp, STn, STe}) (syncs (last (processes m')))"
proof -
  let ?p = "(new_process (autoidx m))
              \<lparr>syncs := [\<lparr>sync_type = STa, sync_signal = [], sync_actions = []\<rparr>]\<rparr>"
  let ?v0 = "ProceduralVisitor_init (m\<lparr>autoidx := Suc (autoidx m)\<rparr>) ?p ALWAYS"
  from always_comb_Inr [OF assms] obtain v where
    vis: "visit run body ?v0 = Inr v" and m': "m' = add_process (staging_done v)"
    by blast
  have "syncs (proc v) = syncs (proc ?v0)"
    using visit_keeps [OF vis] by (simp add: keeps_def)
  then have s: "syncs (proc v) = [\<lparr>sync_type = STa, sync_signal = [], sync_actions = []\<rparr>]"
    by (simp add: syncs_ProceduralVisitor_init)
  have l: "last (processes m') = proc (staging_done v)" and ne: "processes m' \<noteq> []"
    by (simp_all add: m' add_process_def)
  have "\<exists>acts. syncs (proc (staging_done v))
          = [\<lparr>sync_type = STa, sync_signal = [], sync_actions = acts\<rparr>]"
    by (simp add: staging_done_def Let_def commit_chunks_syncs s)
  then show ?thesis using l ne by auto
qed

lemma ProceduralVisitor_init_simps:
  "staging (ProceduralVisitor_init m p md) = []"
  "module (ProceduralVisitor_init m p md) = m"
  "assigned_blocking (ProceduralVisitor_init m p md) = {}"
  "assigned_nonblocking (ProceduralVisitor_init m p md) = {}"
  "ctx (ProceduralVisitor_init m p md) = \<lparr>rvalue_subs = [], args = []\<rparr>"
  by (simp_all add: ProceduralVisitor_init_def Let_def split: prod.splits)

lemma comb_example_visit:
  assumes "module v = example_module\<lparr>autoidx := 11\<rparr>" "staging v = []"
    "assigned_blocking v = {}" "assigned_nonblocking v = {}"
    "ctx v = \<lparr>rvalue_subs = [], args = []\<rparr>"
  shows "\<exists>v'. visit no_calls comb_example v = Inr v'"
proof -
  let ?l = "NamedValue \<lparr>expr_type = logic_type 2, expr_constant = None\<rparr> (variable 7 2)"
  let ?m = "example_module\<lparr>autoidx := 11\<rparr>"
  have r: "evaluate_rhs no_calls (Some (ctx v))
             (IntegerLiteral \<lparr>expr_type = logic_type 2, expr_constant = Some (CVInteger [S1, S0])\<rparr>
                [S1, S0]) (module v) = Inr ([Bit S1, Bit S0], ?m)"
    by (simp add: assms const_or_def done_check_def ebind_def logic_type_def)
  have e: "etch no_calls (ctx v) ?l [Bit S1, Bit S1] [Bit S1, Bit S0] ?m
             = Inr ((?l, [Bit S1, Bit S1], [Bit S1, Bit S0]), ?m)"
    by (simp add: etch_check_def type_of_def logic_type_def ebind_def)
  have l: "evaluate_lhs ?m ?l = Inr [WireBit 7 0, WireBit 7 1]"
    by (simp add: wire_def example_module_def variable_def lhs_check_def logic_type_def
          wire_sig_def upt_rec)
  have c: "crop_zero_mask [Bit S1, Bit S1] x = Inr x" for x
    by (simp add: crop_zero_mask_def numeral_2_eq_2)
  have o: "is_fully_ones [Bit S1, Bit S1]"
    by (simp add: is_fully_ones_def)
  have k: "\<exists>v'. commit_assignment True [WireBit 7 0, WireBit 7 1] [Bit S1, Bit S0]
                  (v\<lparr>module := ?m\<rparr>) = Inr v'"
    by (simp add: commit_assignment_def ebind_def Let_def assms pool_check_any_def
          staging_signal_def split: prod.splits)
  have "visit no_calls comb_example v
          = commit_assignment True [WireBit 7 0, WireBit 7 1] [Bit S1, Bit S0] (v\<lparr>module := ?m\<rparr>)"
    unfolding comb_example_def visit.simps handle_assignment_def r
    by (simp add: ebind_def e l c o
          del: evaluate_rhs.simps etch.simps evaluate_lhs.simps)
  with k show ?thesis by simp
qed

theorem always_comb_single_sync_witness:
  "\<exists>m'. handle_ProceduralBlockSymbol no_calls AlwaysComb comb_example example_module = Inr m' \<and>
      map sync_type (syncs (last (processes m'))) = [STa] \<and>
      map sync_signal (syncs (last (processes m'))) = [[]]"
proof -
  have "\<exists>v'. visit no_calls comb_example
          (ProceduralVisitor_init (example_module\<lparr>autoidx := Suc (autoidx example_module)\<rparr>)
             ((new_process (autoidx example_module))
                \<lparr>syncs := [\<lparr>sync_type = STa, sync_signal = [], sync_actions = []\<rparr>]\<rparr>) ALWAYS)
          = Inr v'"
    by (rule comb_example_visit) (simp_all add: ProceduralVisitor_init_simps example_module_def)
  then obtain m' where
    h: "handle_ProceduralBlockSymbol no_calls AlwaysComb comb_example example_module = Inr m'"
    by (auto simp: handle_ProceduralBlockSymbol_def Let_def ebind_def)
  from always_comb_single_sync [OF h] have
    "map sync_type (syncs (last (processes m'))) = [STa]"
    "map sync_signal (syncs (last (processes m'))) = [[]]"
    by simp_all
  with h show ?thesis by (intro exI [of _ m']) simp
qed

subsection \<open>Pools and staging over a whole procedure\<close>

text \<open>
  What holds for one assignment holds for the body of a procedure: from the state the
  visitor's constructor leaves, whatever statement is visited, no bit is in both pools
  afterwards, and a staging binding, once made, is never changed.
\<close>

lemma visit_pools_disjoint:
  assumes "visit run s (ProceduralVisitor_init m p md) = Inr v'"
  shows "assigned_blocking v' \<inter> assigned_nonblocking v' = {}"
  using visit_keeps [OF assms]
  by (simp add: keeps_def pools_disjoint_def ProceduralVisitor_init_simps)

lemma visit_staging_stable:
  assumes "visit run s v = Inr v'" and "map_of (staging v) b = Some x"
  shows "map_of (staging v') b = Some x"
  using visit_keeps [OF assms(1)] assms(2) by (simp add: keeps_def)

subsection \<open>The width assertion inside function bodies\<close>

text \<open>
  The body runner that the lowering of a call really uses, \<open>evaluate_function\<close>, is
  fine on consistently typed bodies whenever the runner one level of calls further down
  is; at the bottom, a runner that is never called is fine.
\<close>

lemma lowering_ok_proc [simp]: "lowering_ok ds (v\<lparr>proc := p\<rparr>) = lowering_ok ds v"
  by (simp add: lowering_ok_def)

lemma lowering_ok_current_case [simp]: "lowering_ok ds (v\<lparr>current_case := c\<rparr>) = lowering_ok ds v"
  by (simp add: lowering_ok_def)

lemma lowering_ok_pools [simp]:
  "lowering_ok ds (v\<lparr>assigned_blocking := a\<rparr>) = lowering_ok ds v"
  "lowering_ok ds (v\<lparr>assigned_nonblocking := a\<rparr>) = lowering_ok ds v"
  "lowering_ok ds (v\<lparr>print_priority := k\<rparr>) = lowering_ok ds v"
  "lowering_ok ds (v\<lparr>staging := st\<rparr>) = lowering_ok ds v"
  by (simp_all add: lowering_ok_def)

lemma lowering_ok_subs [simp]:
  "lowering_ok ds (v\<lparr>ctx := (ctx v)\<lparr>rvalue_subs := d\<rparr>\<rparr>) = lowering_ok ds v"
  by (simp add: lowering_ok_def)

lemma lowering_ok_module: "lowering_ok ds v \<Longrightarrow> wires_ok ds m \<Longrightarrow> lowering_ok ds (v\<lparr>module := m\<rparr>)"
  by (simp add: lowering_ok_def)

lemma bind_fresh_ok: "wires_ok ds m \<Longrightarrow> wires_ok ds (snd (bind_fresh cs d m))"
  by (induction cs arbitrary: d m) (simp_all add: case_prod_beta addWire_new_ok)

lemma staging_signal_safe:
  "lowering_ok ds v \<Longrightarrow> safe (staging_signal lv v) (\<lambda>(r, v'). lowering_ok ds v')"
  by (simp add: staging_signal_def Let_def case_prod_beta lowering_ok_def bind_fresh_ok)

lemma commit_assignment_safe:
  assumes "lowering_ok ds v"
  shows "safe (commit_assignment blocking lv rv v) (lowering_ok ds)"
proof -
  have 1: "safe (if blocking then
             (let v1 = v\<lparr>ctx := (ctx v)\<lparr>rvalue_subs :=
                          dict_set_all lv rv (rvalue_subs (ctx v))\<rparr>\<rparr>
              in if pool_check_any (assigned_nonblocking v1) lv then Inl AssertionFailed
                 else Inr (v1\<lparr>assigned_blocking := pool_add lv (assigned_blocking v1)\<rparr>))
           else
             (if pool_check_any (assigned_blocking v) lv then Inl AssertionFailed
              else Inr (v\<lparr>assigned_nonblocking := pool_add lv (assigned_nonblocking v)\<rparr>)))
          (lowering_ok ds)"
    using assms by (simp add: Let_def)
  have 2: "safe (ebind (staging_signal lv v2)
             (\<lambda>(target, v3).
                Inr (v3\<lparr>proc := push_action (current_case v3) (target, rv) (proc v3)\<rparr>)))
           (lowering_ok ds)" if "lowering_ok ds v2" for v2
    by (rule safe_ebind_pair [OF staging_signal_safe [OF that]]) simp
  show ?thesis
    unfolding commit_assignment_def
    by (simp only: if_split [of "\<lambda>r. safe r (lowering_ok ds)"])
       (intro conjI impI safe_ebind [OF 1] 2, simp_all)
qed


lemma lhs_check_safe: "safe (lhs_check h ret) (\<lambda>_. True)"
  by (simp add: lhs_check_def)

lemma safe_trivial: "safe (sig_extract sig off len) (\<lambda>_. True)"
  by (rule safe_mono [OF safe_sig_extract]) simp

lemma evaluate_lhs_list_safe:
  assumes "\<And>e. e \<in> set es \<Longrightarrow> safe (evaluate_lhs m e) (\<lambda>_. True)"
  shows "safe (evaluate_lhs_list m es) (\<lambda>_. True)"
  using assms
proof (induction es)
  case Nil
  show ?case by simp
next
  case (Cons e es)
  have r: "safe (evaluate_lhs_list m es) (\<lambda>_. True)" using Cons by simp
  show ?case
    unfolding evaluate_lhs_list.simps
    by (rule safe_ebind [of _ "\<lambda>_. True"], simp add: Cons.prems)
       (rule safe_ebind [OF r], simp)
qed

lemma evaluate_lhs_safe: "safe (evaluate_lhs m e) (\<lambda>_. True)"
proof (induction e)
  case (NamedValue h symb)
  show ?case by (simp add: lhs_check_safe split: option.splits)
next
  case (RangeSelect h kind val left right)
  have "safe (ebind (evaluate_lhs m val)
          (\<lambda>sig. ebind (sig_extract sig off len) (lhs_check h))) (\<lambda>_. True)" for off len
    by (rule safe_ebind [OF RangeSelect.IH], rule safe_ebind [OF safe_trivial])
       (rule lhs_check_safe)
  then show ?case by (simp add: Let_def split: option.splits)
next
  case (ElementSelect h val selector)
  have "safe (ebind (evaluate_lhs m val)
          (\<lambda>sig. ebind (sig_extract sig off len) (lhs_check h))) (\<lambda>_. True)" for off len
    by (rule safe_ebind [OF ElementSelect.IH(1)], rule safe_ebind [OF safe_trivial])
       (rule lhs_check_safe)
  then show ?case
    by (simp add: Let_def split: option.splits ConstantValue.splits bool.splits)
next
  case (Concatenation h operands)
  have "safe (evaluate_lhs_list m operands) (\<lambda>_. True)"
    by (rule evaluate_lhs_list_safe) (rule Concatenation.IH)
  then have "safe (ebind (evaluate_lhs_list m operands) (\<lambda>sigs. lhs_check h (concat (rev sigs))))
               (\<lambda>_. True)"
    by (rule safe_ebind) (rule lhs_check_safe)
  then show ?case by simp
next
  case (MemberAccess h val member)
  have "safe (ebind (evaluate_lhs m val) (\<lambda>sig. sig_extract sig off len)) (\<lambda>_. True)" for off len
    by (rule safe_ebind [OF MemberAccess.IH]) (rule safe_trivial)
  then show ?case by (simp split: Member.splits)
qed simp_all

lemma crop_from_safe: "safe (crop_from n msk target) (\<lambda>_. True)"
  by (induction n arbitrary: target) simp_all

lemma crop_zero_mask_safe: "safe (crop_zero_mask msk target) (\<lambda>_. True)"
  by (simp add: crop_zero_mask_def crop_from_safe)

lemma module_Demux_ok: "wires_ok ds m \<Longrightarrow> wires_ok ds (snd (module_Demux a sel m))"
  by (simp add: module_Demux_def Let_def case_prod_beta addWire_new_ok)

lemma module_Bwmux_ok: "wires_ok ds m \<Longrightarrow> wires_ok ds (snd (module_Bwmux a b sel m))"
  by (simp add: module_Bwmux_def Let_def case_prod_beta addWire_new_ok)

lemma etch_check_safe: "safe (etch_check e mk rv) (\<lambda>_. True)"
  by (simp add: etch_check_def)


lemma etch_safe:
  assumes run: "run_ok ds good run" and cx: "bound_ok ds (args cx)"
  shows "well_typed ds good e \<Longrightarrow> wires_ok ds m \<Longrightarrow>
         safe (etch run cx e mk rv m) (\<lambda>(x, m'). wires_ok ds m')"
proof (induction e arbitrary: mk rv m)
  case (RangeSelect h kind val left right)
  have "safe (ebind (etch_check val mask1 rvalue1) (\<lambda>_. etch run cx val mask1 rvalue1 m))
          (\<lambda>(x, m'). wires_ok ds m')" for mask1 rvalue1
    by (rule safe_ebind [OF etch_check_safe], rule RangeSelect.IH)
       (use RangeSelect.prems in simp_all)
  then show ?case by (simp add: Let_def split: option.splits)
next
  case (ElementSelect h val selector)
  have a: "args_ok ds (Some cx)" using cx by (simp add: args_ok_def)
  have sel: "safe (evaluate_rhs run (Some cx) selector m)
               (post ds (bitstreamWidth (type_of selector)))"
    by (rule evaluate_rhs_safe [OF run a]) (use ElementSelect.prems in simp_all)
  have "safe (ebind (evaluate_rhs run (Some cx) selector m)
               (\<lambda>(idx, m1).
                  let ((raw_idx, valid), m2) =
                        translate_index_sig (isSigned (type_of selector)) rng idx m1;
                      (demuxed, m3) = module_Demux mk raw_idx m2;
                      mask1 = extend_u0 demuxed (bitstreamWidth (expr_type h) * nat (range_width rng)) False;
                      rvalue1 = concat (replicate (nat (range_width rng)) rv)
                  in ebind (etch_check val mask1 rvalue1)
                       (\<lambda>_. etch run cx val mask1 rvalue1 m3)))
          (\<lambda>(x, m'). wires_ok ds m')" for rng
  proof (rule safe_ebind_pair [OF sel])
    fix idx m1 assume "post ds (bitstreamWidth (type_of selector)) (idx, m1)"
    then have m1: "wires_ok ds m1" by (simp add: post_pair)
    let ?t = "translate_index_sig (isSigned (type_of selector)) rng idx m1"
    let ?d = "module_Demux mk (fst (fst ?t)) (snd ?t)"
    have m3: "wires_ok ds (snd ?d)"
      by (intro module_Demux_ok translate_index_sig_ok m1)
    have "safe (ebind (etch_check val mask1 rvalue1) (\<lambda>_. etch run cx val mask1 rvalue1 (snd ?d)))
            (\<lambda>(x, m'). wires_ok ds m')" for mask1 rvalue1
      by (rule safe_ebind [OF etch_check_safe], rule ElementSelect.IH(1))
         (use ElementSelect.prems m3 in simp_all)
    then show "safe (let ((raw_idx, valid), m2) =
                        translate_index_sig (isSigned (type_of selector)) rng idx m1;
                      (demuxed, m3) = module_Demux mk raw_idx m2;
                      mask1 = extend_u0 demuxed (bitstreamWidth (expr_type h) * nat (range_width rng)) False;
                      rvalue1 = concat (replicate (nat (range_width rng)) rv)
                  in ebind (etch_check val mask1 rvalue1)
                       (\<lambda>_. etch run cx val mask1 rvalue1 m3))
            (\<lambda>(x, m'). wires_ok ds m')"
      by (simp add: Let_def case_prod_beta)
  qed
  then show ?case by (simp add: Let_def split: option.splits bool.splits)
next
  case (MemberAccess h val member)
  have "safe (ebind (etch_check val mask1 rvalue1) (\<lambda>_. etch run cx val mask1 rvalue1 m))
          (\<lambda>(x, m'). wires_ok ds m')" for mask1 rvalue1
    by (rule safe_ebind [OF etch_check_safe], rule MemberAccess.IH)
       (use MemberAccess.prems in simp_all)
  then show ?case by (simp add: Let_def split: Member.splits)
qed (simp_all add: etch_check_def ebind_def)

lemma handle_assignment_safe:
  assumes run: "run_ok ds good run" and v: "lowering_ok ds v"
    and wt: "well_typed ds good left" "well_typed ds good right"
  shows "safe (handle_assignment run nb left right v) (lowering_ok ds)"
proof -
  have a: "args_ok ds (Some (ctx v))" and b: "bound_ok ds (args (ctx v))"
    and m: "wires_ok ds (module v)"
    using v by (simp_all add: args_ok_def lowering_ok_def)
  have r: "safe (evaluate_rhs run (Some (ctx v)) right (module v))
             (post ds (bitstreamWidth (type_of right)))"
    by (rule evaluate_rhs_safe [OF run a wt(2) m])
  show ?thesis
    unfolding handle_assignment_def
  proof (rule safe_ebind_pair [OF r])
    fix rvalue m1 assume "post ds (bitstreamWidth (type_of right)) (rvalue, m1)"
    then have m1: "wires_ok ds m1" by (simp add: post_pair)
    have e: "safe (etch run (ctx v) left (replicate (length rvalue) (Bit S1)) rvalue m1)
               (\<lambda>(x, m'). wires_ok ds m')"
      by (rule etch_safe [OF run b wt(1) m1])
    show "safe (ebind (etch run (ctx v) left (replicate (length rvalue) (Bit S1)) rvalue m1)
            (\<lambda>((raw_lexpr, raw_mask, raw_rvalue), m2).
               ebind (evaluate_lhs m2 raw_lexpr)
                 (\<lambda>lvalue0. ebind (crop_zero_mask raw_mask lvalue0)
                    (\<lambda>lvalue. ebind (crop_zero_mask raw_mask raw_rvalue)
                       (\<lambda>cropped_rvalue. ebind (crop_zero_mask raw_mask raw_mask)
                          (\<lambda>msk.
                             let (masked_rvalue, m3) =
                                   (if is_fully_ones msk then (cropped_rvalue, m2)
                                    else module_Bwmux (replace (rvalue_subs (ctx v)) lvalue)
                                           cropped_rvalue msk m2)
                             in commit_assignment (\<not> nb) lvalue masked_rvalue
                                  (v\<lparr>module := m3\<rparr>)))))))
          (lowering_ok ds)"
    proof (rule safe_ebind [OF e])
      fix x :: "('a Expression \<times> SigSpec \<times> SigSpec) \<times> Module"
      assume "case x of (x, m') \<Rightarrow> wires_ok ds m'"
      then have m2: "wires_ok ds (snd x)" by (simp add: case_prod_beta)
      have c: "safe (commit_assignment (\<not> nb) lvalue mrv (v\<lparr>module := m3\<rparr>)) (lowering_ok ds)"
        if "wires_ok ds m3" for lvalue mrv m3
        by (rule commit_assignment_safe) (rule lowering_ok_module [OF v that])
      show "safe ((\<lambda>((raw_lexpr, raw_mask, raw_rvalue), m2).
               ebind (evaluate_lhs m2 raw_lexpr)
                 (\<lambda>lvalue0. ebind (crop_zero_mask raw_mask lvalue0)
                    (\<lambda>lvalue. ebind (crop_zero_mask raw_mask raw_rvalue)
                       (\<lambda>cropped_rvalue. ebind (crop_zero_mask raw_mask raw_mask)
                          (\<lambda>msk.
                             let (masked_rvalue, m3) =
                                   (if is_fully_ones msk then (cropped_rvalue, m2)
                                    else module_Bwmux (replace (rvalue_subs (ctx v)) lvalue)
                                           cropped_rvalue msk m2)
                             in commit_assignment (\<not> nb) lvalue masked_rvalue
                                  (v\<lparr>module := m3\<rparr>)))))) x)
              (lowering_ok ds)"
        unfolding case_prod_beta
        by (intro safe_ebind [OF evaluate_lhs_safe] safe_ebind [OF crop_zero_mask_safe])
           (simp add: Let_def case_prod_beta c m2 module_Bwmux_ok)
    qed
  qed
qed


lemma safe_if: "(c \<Longrightarrow> safe a Q) \<Longrightarrow> (\<not> c \<Longrightarrow> safe b Q) \<Longrightarrow> safe (if c then a else b) Q"
  by simp

lemma scan_triggers_safe: "safe (scan_triggers rs) (\<lambda>_. True)"
proof (induction rs)
  case Nil
  show ?case by simp
next
  case (Cons r rs)
  have k: "safe (ebind (scan_triggers rs) (\<lambda>(i, t, p). Inr (g i t p))) (\<lambda>_. True)" for g
    by (rule safe_ebind [OF Cons.IH]) (simp add: case_prod_beta)
  show ?case
    unfolding scan_triggers.simps
    by (intro safe_if k) simp_all
qed

lemma display_args_safe:
  assumes run: "run_ok ds good run" and cx: "bound_ok ds (args cx)"
  shows "list_all (display_arg_ok ds good) arguments \<Longrightarrow> wires_ok ds m \<Longrightarrow>
         safe (display_args run cx arguments m) (\<lambda>(sigs, m'). wires_ok ds m')"
proof (induction arguments arbitrary: m)
  case Nil
  then show ?case by simp
next
  case (Cons arg arguments)
  show ?case
  proof (cases arg)
    case (StringLiteralArg str)
    then show ?thesis using Cons by simp
  next
    case (ValueArg e)
    have a: "args_ok ds (Some cx)" using cx by (simp add: args_ok_def)
    have e: "safe (evaluate_rhs run (Some cx) e m) (post ds (bitstreamWidth (type_of e)))"
      by (rule evaluate_rhs_safe [OF run a]) (use Cons.prems ValueArg in simp_all)
    have "safe (ebind (evaluate_rhs run (Some cx) e m)
             (\<lambda>(sig, m1). ebind (display_args run cx arguments m1)
                (\<lambda>(sigs, m2). Inr (sig # sigs, m2))))
          (\<lambda>(sigs, m'). wires_ok ds m')"
    proof (rule safe_ebind_pair [OF e])
      fix sig m1 assume "post ds (bitstreamWidth (type_of e)) (sig, m1)"
      then have m1: "wires_ok ds m1" by (simp add: post_pair)
      have r: "safe (display_args run cx arguments m1) (\<lambda>(sigs, m'). wires_ok ds m')"
        by (rule Cons.IH) (use Cons.prems m1 in simp_all)
      show "safe (ebind (display_args run cx arguments m1) (\<lambda>(sigs, m2). Inr (sig # sigs, m2)))
              (\<lambda>(sigs, m'). wires_ok ds m')"
        by (rule safe_ebind_pair [OF r]) simp
    qed
    moreover have "safe (display_args run cx arguments m) (\<lambda>(sigs, m'). wires_ok ds m')"
      by (rule Cons.IH) (use Cons.prems in simp_all)
    ultimately show ?thesis by (simp add: ValueArg)
  qed
qed

lemma context_enable_ok: "lowering_ok ds v \<Longrightarrow> lowering_ok ds (snd (context_enable v))"
  by (simp add: context_enable_def Let_def case_prod_beta lowering_ok_def addWire_new_ok)

lemma handle_display_safe:
  assumes run: "run_ok ds good run" and v: "lowering_ok ds v"
    and ok: "list_all (display_arg_ok ds good) arguments"
  shows "safe (handle_display run arguments v) (lowering_ok ds)"
proof -
  let ?v1 = "v\<lparr>module := (module v)\<lparr>autoidx := Suc (autoidx (module v))\<rparr>\<rparr>"
  let ?v2 = "snd (context_enable ?v1)"
  let ?v3 = "?v2\<lparr>print_priority := print_priority ?v2 - 1\<rparr>"
  have v1: "lowering_ok ds ?v1" using v by (simp add: lowering_ok_def)
  have v3: "lowering_ok ds ?v3" using context_enable_ok [OF v1] by simp
  have d: "safe (display_args run (ctx ?v3) arguments (module ?v3)) (\<lambda>(sigs, m'). wires_ok ds m')"
    by (rule display_args_safe [OF run _ ok]) (use v3 in \<open>simp_all add: lowering_ok_def\<close>)
  show ?thesis
    unfolding handle_display_def Let_def case_prod_beta
    apply (rule safe_ebind [OF scan_triggers_safe])
    apply (intro safe_if)
      apply simp
     apply simp
    apply (rule safe_ebind [OF d])
    using v3 apply (simp add: case_prod_beta lowering_ok_def)
    done
qed

lemma SwitchBuilder_init_ok:
  "lowering_ok ds v \<Longrightarrow> lowering_ok ds (snd (SwitchBuilder_init par sig v))"
  by (simp add: SwitchBuilder_init_def Let_def case_prod_beta)

lemma branch_enter_ok: "lowering_ok ds v \<Longrightarrow> lowering_ok ds (snd (branch_enter b cmp v))"
  by (simp add: branch_enter_def Let_def case_prod_beta)

lemma branch_safe:
  assumes "\<And>rule vv. lowering_ok ds vv \<Longrightarrow> safe (f rule vv) (lowering_ok ds)"
    and "lowering_ok ds v"
  shows "safe (branch b cmp f v) (\<lambda>(b', v'). lowering_ok ds v')"
proof -
  have "safe (f (fst (branch_enter b cmp v)) (snd (branch_enter b cmp v))) (lowering_ok ds)"
    by (rule assms(1)) (rule branch_enter_ok [OF assms(2)])
  then show ?thesis
    unfolding branch_def Let_def case_prod_beta
    by (rule safe_ebind) simp
qed

lemma finish_defaults_ok: "lowering_ok ds v \<Longrightarrow> lowering_ok ds (finish_defaults par cs v)"
proof (induction cs arbitrary: v)
  case Nil
  then show ?case by simp
next
  case (Cons c cs)
  show ?case
    unfolding finish_defaults.simps Let_def case_prod_beta
    by (rule Cons.IH) (use Cons.prems in \<open>simp add: lowering_ok_def addWire_new_ok\<close>)
qed

lemma finish_ok: "lowering_ok ds v \<Longrightarrow> lowering_ok ds (finish b v)"
  using finish_defaults_ok [of ds v "parent b" "finish_chunks b"]
  by (simp add: finish_unfold lowering_ok_def finish_branches_frame)

lemma descend_ok: "lowering_ok ds v \<Longrightarrow> lowering_ok ds (descend cs v)"
  by (simp add: descend_def Let_def case_prod_beta lowering_ok_def)

lemma evaluate_compares_safe:
  assumes run: "run_ok ds good run" and cx: "bound_ok ds (args cx)"
  shows "well_typed_list ds good es \<Longrightarrow> wires_ok ds m \<Longrightarrow>
         safe (evaluate_compares run cx w es m) (\<lambda>(cs, m'). wires_ok ds m')"
proof (induction es arbitrary: m)
  case Nil
  then show ?case by simp
next
  case (Cons e es)
  have a: "args_ok ds (Some cx)" using cx by (simp add: args_ok_def)
  have e: "safe (evaluate_rhs run (Some cx) e m) (post ds (bitstreamWidth (type_of e)))"
    by (rule evaluate_rhs_safe [OF run a]) (use Cons.prems in simp_all)
  show ?case
    unfolding evaluate_compares.simps
  proof (rule safe_ebind_pair [OF e])
    fix compare m1 assume "post ds (bitstreamWidth (type_of e)) (compare, m1)"
    then have m1: "wires_ok ds m1" by (simp add: post_pair)
    have r: "safe (evaluate_compares run cx w es m1) (\<lambda>(cs, m'). wires_ok ds m')"
      by (rule Cons.IH) (use Cons.prems m1 in simp_all)
    have "safe (ebind (evaluate_compares run cx w es m1) (\<lambda>(rest, m2). Inr (compare # rest, m2)))
            (\<lambda>(cs, m'). wires_ok ds m')"
      by (rule safe_ebind_pair [OF r]) simp
    then show "safe (if length compare \<noteq> w then Inl AssertionFailed
          else ebind (evaluate_compares run cx w es m1)
                 (\<lambda>(rest, m2). Inr (compare # rest, m2)))
            (\<lambda>(cs, m'). wires_ok ds m')"
      by simp
  qed
qed


lemma visit_list_safe:
  assumes "\<And>s v. s \<in> set ss \<Longrightarrow> lowering_ok ds v \<Longrightarrow> safe (visit run s v) (lowering_ok ds)"
    and "lowering_ok ds v"
  shows "safe (visit_list run ss v) (lowering_ok ds)"
  using assms
proof (induction ss arbitrary: v)
  case Nil
  then show ?case by simp
next
  case (Cons s ss)
  have 1: "safe (visit run s v) (lowering_ok ds)"
    by (rule Cons.prems(1)) (simp_all add: Cons.prems(2))
  show ?case
    unfolding visit_list.simps
  proof (rule safe_ebind [OF 1])
    fix v1 assume "lowering_ok ds v1"
    then show "safe (visit_list run ss v1) (lowering_ok ds)"
      by (intro Cons.IH Cons.prems(1)) simp_all
  qed
qed

lemma branch_visit_safe:
  assumes "\<And>v. lowering_ok ds v \<Longrightarrow> safe (visit run s v) (lowering_ok ds)"
    and "lowering_ok ds v"
  shows "safe (branch b cmp (\<lambda>rule vv. visit run s (vv\<lparr>current_case := rule\<rparr>)) v)
           (\<lambda>(b', v'). lowering_ok ds v')"
  by (rule branch_safe [OF _ assms(2)]) (rule assms(1), simp)

lemma switch_tail_safe:
  assumes "\<And>s v. s \<in> set_option dflt \<Longrightarrow> lowering_ok ds v \<Longrightarrow>
             safe (visit run s v) (lowering_ok ds)"
    and "lowering_ok ds v2"
  shows "safe (ebind (case dflt of None \<Rightarrow> Inr (b1, v2)
           | Some stmt \<Rightarrow> branch b1 [] (\<lambda>rule vv. visit run stmt (vv\<lparr>current_case := rule\<rparr>)) v2)
          (\<lambda>(b2, v3). Inr (descend cs (finish b2 v3)))) (lowering_ok ds)"
proof -
  have "safe (case dflt of None \<Rightarrow> Inr (b1, v2)
           | Some stmt \<Rightarrow> branch b1 [] (\<lambda>rule vv. visit run stmt (vv\<lparr>current_case := rule\<rparr>)) v2)
          (\<lambda>(b', v'). lowering_ok ds v')"
  proof (cases dflt)
    case None
    then show ?thesis using assms(2) by simp
  next
    case (Some stmt)
    have "safe (branch b1 [] (\<lambda>rule vv. visit run stmt (vv\<lparr>current_case := rule\<rparr>)) v2)
            (\<lambda>(b', v'). lowering_ok ds v')"
      by (rule branch_visit_safe [OF _ assms(2)]) (rule assms(1), simp_all add: Some)
    then show ?thesis by (simp add: Some)
  qed
  then show ?thesis
    by (rule safe_ebind_pair) (simp add: descend_ok finish_ok)
qed

lemma visit_items_safe:
  assumes run: "run_ok ds good run"
    and wt: "\<And>es s. (es, s) \<in> set items \<Longrightarrow> well_typed_list ds good es"
    and ih: "\<And>es s v. (es, s) \<in> set items \<Longrightarrow> lowering_ok ds v \<Longrightarrow>
               safe (visit run s v) (lowering_ok ds)"
    and v: "lowering_ok ds v"
  shows "safe (visit_items run w items b v) (\<lambda>(b', v'). lowering_ok ds v')"
  using wt ih v
proof (induction items arbitrary: b v)
  case Nil
  then show ?case by simp
next
  case (Cons item items)
  obtain es s where item: "item = (es, s)" by (cases item) auto
  have c: "safe (evaluate_compares run (ctx v) w es (module v)) (\<lambda>(cs, m'). wires_ok ds m')"
    by (rule evaluate_compares_safe [OF run])
       (use Cons.prems(1) [of es s] Cons.prems(3) in \<open>simp_all add: item lowering_ok_def\<close>)
  show ?case
    unfolding item visit_items.simps
  proof (rule safe_ebind_pair [OF c])
    fix compares :: "SigSpec list" and m1 :: Module assume "case (compares, m1) of (cs, m') \<Rightarrow> wires_ok ds m'"
    then have v1: "lowering_ok ds (v\<lparr>module := m1\<rparr>)"
      using Cons.prems(3) by (simp add: lowering_ok_def)
    have br: "safe (branch b compares
                        (\<lambda>rule vv. visit run s (vv\<lparr>current_case := rule\<rparr>))
                        (v\<lparr>module := m1\<rparr>)) (\<lambda>(b', v'). lowering_ok ds v')"
      by (rule branch_visit_safe [OF _ v1]) (rule Cons.prems(2) [of es s], simp_all add: item)
    have "safe (ebind (branch b compares
                        (\<lambda>rule vv. visit run s (vv\<lparr>current_case := rule\<rparr>))
                        (v\<lparr>module := m1\<rparr>))
                 (\<lambda>(b1, v1). visit_items run w items b1 v1)) (\<lambda>(b', v'). lowering_ok ds v')"
    proof (rule safe_ebind_pair [OF br])
      fix b1 :: SwitchBuilder and v1' :: ProceduralVisitor assume "case (b1, v1') of (b', v') \<Rightarrow> lowering_ok ds v'"
      then have v1': "lowering_ok ds v1'" by simp
      show "safe (visit_items run w items b1 v1') (\<lambda>(b', v'). lowering_ok ds v')"
      proof (rule Cons.IH [OF _ _ v1'])
        fix es' s' assume "(es', s') \<in> set items"
        then show "well_typed_list ds good es'" by (intro Cons.prems(1) [of es' s']) simp
      next
        fix es' s' v assume "(es', s') \<in> set items" "lowering_ok ds v"
        then show "safe (visit run s' v) (lowering_ok ds)"
          by (intro Cons.prems(2) [of es' s']) simp_all
      qed
    qed
    then show "safe (if compares = [] then Inl Unimplemented
          else ebind (branch b compares
                        (\<lambda>rule vv. visit run s (vv\<lparr>current_case := rule\<rparr>))
                        (v\<lparr>module := m1\<rparr>))
                 (\<lambda>(b1, v1). visit_items run w items b1 v1)) (\<lambda>(b', v'). lowering_ok ds v')"
      by simp
  qed
qed

lemma stmt_conds_shape:
  "(\<exists>cond pat. conds = [(cond, pat)]) \<or>
   (\<forall>run t f v. visit run (ConditionalStatement conds t f) v = Inl Unimplemented)"
proof (cases conds)
  case Nil
  then show ?thesis by simp
next
  case (Cons p rest)
  then show ?thesis by (cases rest; cases p) simp_all
qed

lemma visit_safe:
  assumes run: "run_ok ds good run"
  shows "stmt_ok ds good s \<Longrightarrow> lowering_ok ds v \<Longrightarrow> safe (visit run s v) (lowering_ok ds)"
proof (induction s arbitrary: v)
  case (AssignmentStatement nb left right)
  then show ?case by (simp add: handle_assignment_safe [OF run])
next
  case (CallStatement name arguments)
  then show ?case by (simp add: handle_display_safe [OF run])
next
  case (BlockStatement sequential body)
  then show ?case by simp
next
  case (StatementList stmts)
  have "safe (visit_list run stmts v) (lowering_ok ds)"
  proof (rule visit_list_safe)
    fix s v assume "s \<in> set stmts" "lowering_ok ds v"
    then show "safe (visit run s v) (lowering_ok ds)"
      using StatementList.prems(1) by (intro StatementList.IH) simp_all
  qed (rule StatementList.prems(2))
  then show ?case by simp
next
  case (ConditionalStatement conds ifTrue ifFalse)
  show ?case
  proof (cases "\<exists>cond pat. conds = [(cond, pat)]")
    case True
    then obtain cond pat where conds: "conds = [(cond, pat)]" by blast
    have a: "args_ok ds (Some (ctx v))" and m: "wires_ok ds (module v)"
      using ConditionalStatement.prems(2) by (simp_all add: args_ok_def lowering_ok_def)
    have c: "safe (evaluate_rhs run (Some (ctx v)) cond (module v))
               (post ds (bitstreamWidth (type_of cond)))"
      by (rule evaluate_rhs_safe [OF run a _ m])
         (use ConditionalStatement.prems(1) in \<open>simp add: conds\<close>)
    have "safe (ebind (evaluate_rhs run (Some (ctx v)) cond (module v))
             (\<lambda>(c, m1).
                let (condition, m2) = unary_cell ''$reduce_bool'' c False 1 m1;
                    (b, v1) = SwitchBuilder_init (current_case v) condition (v\<lparr>module := m2\<rparr>)
                in ebind (branch b [[Bit S1]]
                            (\<lambda>rule vv. visit run ifTrue (vv\<lparr>current_case := rule\<rparr>)) v1)
                     (\<lambda>(b1, v2).
                        ebind (case ifFalse of
                                 None \<Rightarrow> Inr (b1, v2)
                               | Some stmt \<Rightarrow>
                                   branch b1 []
                                     (\<lambda>rule vv. visit run stmt (vv\<lparr>current_case := rule\<rparr>)) v2)
                          (\<lambda>(b2, v3). Inr (descend (current_case v) (finish b2 v3))))))
          (lowering_ok ds)"
    proof (rule safe_ebind_pair [OF c])
      fix c m1 assume "post ds (bitstreamWidth (type_of cond)) (c, m1)"
      then have m1: "wires_ok ds m1" by (simp add: post_pair)
      let ?u = "unary_cell ''$reduce_bool'' c False 1 m1"
      let ?i = "SwitchBuilder_init (current_case v) (fst ?u) (v\<lparr>module := snd ?u\<rparr>)"
      have v1: "lowering_ok ds (snd ?i)"
        by (intro SwitchBuilder_init_ok lowering_ok_module ConditionalStatement.prems(2)
              unary_cell_ok m1)
      have br: "safe (branch (fst ?i) [[Bit S1]]
                  (\<lambda>rule vv. visit run ifTrue (vv\<lparr>current_case := rule\<rparr>)) (snd ?i))
                (\<lambda>(b', v'). lowering_ok ds v')"
        by (rule branch_visit_safe [OF _ v1])
           (rule ConditionalStatement.IH(1), use ConditionalStatement.prems(1) in simp_all)
      have "safe (ebind (branch (fst ?i) [[Bit S1]]
                            (\<lambda>rule vv. visit run ifTrue (vv\<lparr>current_case := rule\<rparr>)) (snd ?i))
                     (\<lambda>(b1, v2).
                        ebind (case ifFalse of
                                 None \<Rightarrow> Inr (b1, v2)
                               | Some stmt \<Rightarrow>
                                   branch b1 []
                                     (\<lambda>rule vv. visit run stmt (vv\<lparr>current_case := rule\<rparr>)) v2)
                          (\<lambda>(b2, v3). Inr (descend (current_case v) (finish b2 v3)))))
              (lowering_ok ds)"
      proof (rule safe_ebind_pair [OF br])
        fix b1 :: SwitchBuilder and v2 :: ProceduralVisitor assume "case (b1, v2) of (b', v') \<Rightarrow> lowering_ok ds v'"
        then have v2: "lowering_ok ds v2" by simp
        show "safe (ebind (case ifFalse of
                                 None \<Rightarrow> Inr (b1, v2)
                               | Some stmt \<Rightarrow>
                                   branch b1 []
                                     (\<lambda>rule vv. visit run stmt (vv\<lparr>current_case := rule\<rparr>)) v2)
                          (\<lambda>(b2, v3). Inr (descend (current_case v) (finish b2 v3))))
                (lowering_ok ds)"
        proof (rule switch_tail_safe [OF _ v2])
          fix s v assume "s \<in> set_option ifFalse" "lowering_ok ds v"
          then show "safe (visit run s v) (lowering_ok ds)"
            using ConditionalStatement.prems(1)
            by (intro ConditionalStatement.IH(2)) (auto split: option.splits)
        qed
      qed
      then show "safe (let (condition, m2) = unary_cell ''$reduce_bool'' c False 1 m1;
                    (b, v1) = SwitchBuilder_init (current_case v) condition (v\<lparr>module := m2\<rparr>)
                in ebind (branch b [[Bit S1]]
                            (\<lambda>rule vv. visit run ifTrue (vv\<lparr>current_case := rule\<rparr>)) v1)
                     (\<lambda>(b1, v2).
                        ebind (case ifFalse of
                                 None \<Rightarrow> Inr (b1, v2)
                               | Some stmt \<Rightarrow>
                                   branch b1 []
                                     (\<lambda>rule vv. visit run stmt (vv\<lparr>current_case := rule\<rparr>)) v2)
                          (\<lambda>(b2, v3). Inr (descend (current_case v) (finish b2 v3)))))
              (lowering_ok ds)"
        by (simp add: Let_def case_prod_beta)
    qed
    then show ?thesis by (simp add: conds Let_def)
  next
    case False
    with stmt_conds_shape [of conds] show ?thesis by auto
  qed
next
  case (CaseStatement normal selector items dflt)
  have a: "args_ok ds (Some (ctx v))" and m: "wires_ok ds (module v)"
    using CaseStatement.prems(2) by (simp_all add: args_ok_def lowering_ok_def)
  have c: "safe (evaluate_rhs run (Some (ctx v)) selector (module v))
             (post ds (bitstreamWidth (type_of selector)))"
    by (rule evaluate_rhs_safe [OF run a _ m]) (use CaseStatement.prems(1) in simp)
  have "safe (ebind (evaluate_rhs run (Some (ctx v)) selector (module v))
             (\<lambda>(dispatch, m1).
                let (b, v1) = SwitchBuilder_init (current_case v) dispatch (v\<lparr>module := m1\<rparr>)
                in ebind (visit_items run (length dispatch) items b v1)
                     (\<lambda>(b1, v2).
                        ebind (case dflt of
                                 None \<Rightarrow> Inr (b1, v2)
                               | Some stmt \<Rightarrow>
                                   branch b1 []
                                     (\<lambda>rule vv. visit run stmt (vv\<lparr>current_case := rule\<rparr>)) v2)
                          (\<lambda>(b2, v3). Inr (descend (current_case v) (finish b2 v3))))))
          (lowering_ok ds)"
  proof (rule safe_ebind_pair [OF c])
    fix dispatch m1 assume "post ds (bitstreamWidth (type_of selector)) (dispatch, m1)"
    then have m1: "wires_ok ds m1" by (simp add: post_pair)
    let ?i = "SwitchBuilder_init (current_case v) dispatch (v\<lparr>module := m1\<rparr>)"
    have v1: "lowering_ok ds (snd ?i)"
      by (intro SwitchBuilder_init_ok lowering_ok_module CaseStatement.prems(2) m1)
    have it: "safe (visit_items run (length dispatch) items (fst ?i) (snd ?i))
                (\<lambda>(b', v'). lowering_ok ds v')"
    proof (rule visit_items_safe [OF run _ _ v1])
      fix es s assume "(es, s) \<in> set items"
      then show "well_typed_list ds good es"
        using CaseStatement.prems(1) by auto
    next
      fix es s v assume "(es, s) \<in> set items" "lowering_ok ds v"
      then show "safe (visit run s v) (lowering_ok ds)"
        using CaseStatement.prems(1)
        by (intro CaseStatement.IH(1) [of "(es, s)" s]) auto
    qed
    have "safe (ebind (visit_items run (length dispatch) items (fst ?i) (snd ?i))
                     (\<lambda>(b1, v2).
                        ebind (case dflt of
                                 None \<Rightarrow> Inr (b1, v2)
                               | Some stmt \<Rightarrow>
                                   branch b1 []
                                     (\<lambda>rule vv. visit run stmt (vv\<lparr>current_case := rule\<rparr>)) v2)
                          (\<lambda>(b2, v3). Inr (descend (current_case v) (finish b2 v3)))))
            (lowering_ok ds)"
    proof (rule safe_ebind_pair [OF it])
      fix b1 :: SwitchBuilder and v2 :: ProceduralVisitor assume "case (b1, v2) of (b', v') \<Rightarrow> lowering_ok ds v'"
      then have v2: "lowering_ok ds v2" by simp
      show "safe (ebind (case dflt of
                                 None \<Rightarrow> Inr (b1, v2)
                               | Some stmt \<Rightarrow>
                                   branch b1 []
                                     (\<lambda>rule vv. visit run stmt (vv\<lparr>current_case := rule\<rparr>)) v2)
                          (\<lambda>(b2, v3). Inr (descend (current_case v) (finish b2 v3))))
              (lowering_ok ds)"
      proof (rule switch_tail_safe [OF _ v2])
        fix s v assume "s \<in> set_option dflt" "lowering_ok ds v"
        then show "safe (visit run s v) (lowering_ok ds)"
          using CaseStatement.prems(1)
          by (intro CaseStatement.IH(2)) (auto split: option.splits)
      qed
    qed
    then show "safe (let (b, v1) = SwitchBuilder_init (current_case v) dispatch (v\<lparr>module := m1\<rparr>)
                in ebind (visit_items run (length dispatch) items b v1)
                     (\<lambda>(b1, v2).
                        ebind (case dflt of
                                 None \<Rightarrow> Inr (b1, v2)
                               | Some stmt \<Rightarrow>
                                   branch b1 []
                                     (\<lambda>rule vv. visit run stmt (vv\<lparr>current_case := rule\<rparr>)) v2)
                          (\<lambda>(b2, v3). Inr (descend (current_case v) (finish b2 v3)))))
            (lowering_ok ds)"
      by (simp add: Let_def case_prod_beta)
  qed
  then show ?case by (simp add: Let_def)
qed simp_all


lemma evaluate_function_ok:
  assumes "run_ok ds good run"
  shows "run_ok ds (stmt_ok ds good) (evaluate_function run)"
  unfolding run_ok_def
proof (intro allI impI)
  fix body :: "'a Statement" and n bound m
  assume body: "stmt_ok ds good body" and m: "wires_ok ds m" and b: "bound_ok ds bound"
  let ?v0 = "ProceduralVisitor_init m (new_process n) FUNCTION"
  let ?v1 = "?v0\<lparr>ctx := (ctx ?v0)\<lparr>args := bound\<rparr>\<rparr>"
  have v1: "lowering_ok ds ?v1"
    using m b by (simp add: lowering_ok_def ProceduralVisitor_init_simps)
  have "safe (ebind (visit run body ?v1) (\<lambda>v2. Inr (staging v2, add_process v2)))
          (\<lambda>(stg, m'). wires_ok ds m')"
    by (rule safe_ebind [OF visit_safe [OF assms body v1]])
       (simp add: add_process_def lowering_ok_def)
  then show "safe (evaluate_function run body n bound m) (\<lambda>(stg, m'). wires_ok ds m')"
    by (simp add: evaluate_function_def Let_def)
qed

lemma no_calls_ok: "run_ok ds good no_calls"
  by (simp add: run_ok_def no_calls_def)

lemma call_body_visit:
  assumes "module v = call_module\<lparr>autoidx := 31\<rparr>" "staging v = []"
    "assigned_blocking v = {}" "assigned_nonblocking v = {}"
    "ctx v = \<lparr>rvalue_subs = [], args = [(20, wire_sig 7 2)]\<rparr>"
  shows "\<exists>v'. visit no_calls call_body v = Inr v'"
proof -
  let ?l = "NamedValue \<lparr>expr_type = logic_type 2, expr_constant = None\<rparr>
              ((variable 21 2)\<lparr>sym_in_instance_body := False\<rparr>)"
  let ?r = "UnaryOp \<lparr>expr_type = logic_type 2, expr_constant = None\<rparr> BitwiseNot
              (NamedValue \<lparr>expr_type = logic_type 2, expr_constant = None\<rparr> (formal 20 2))"
  have "\<exists>sig m'. evaluate_rhs no_calls (Some (ctx v)) ?r (module v) = Inr (sig, m') \<and>
          length sig = 2 \<and> map_of (wires m') 21 = Some 2"
    by (simp add: assms call_module_def formal_def eval_defs upt_rec)
  then obtain sig m' where
    r: "evaluate_rhs no_calls (Some (ctx v)) ?r (module v) = Inr (sig, m')"
    and len: "length sig = 2" and w: "map_of (wires m') 21 = Some 2"
    by blast
  let ?mk = "replicate (length sig) (Bit S1)"
  have e: "etch no_calls (ctx v) ?l ?mk sig m' = Inr ((?l, ?mk, sig), m')"
    by (simp add: etch_check_def type_of_def logic_type_def ebind_def len)
  have l: "evaluate_lhs m' ?l = Inr (wire_sig 21 2)"
    by (simp add: wire_def w variable_def lhs_check_def logic_type_def wire_sig_def)
  have c: "crop_zero_mask ?mk x = Inr x" for x
    by (simp add: crop_zero_mask_def len numeral_2_eq_2)
  have o: "is_fully_ones ?mk"
    by (simp add: is_fully_ones_def list_all_iff)
  have k: "\<exists>v'. commit_assignment True (wire_sig 21 2) sig (v\<lparr>module := m'\<rparr>) = Inr v'"
    by (simp add: commit_assignment_def ebind_def Let_def assms pool_check_any_def
          staging_signal_def wire_sig_def len upt_rec split: prod.splits)
  have "visit no_calls call_body v
          = commit_assignment True (wire_sig 21 2) sig (v\<lparr>module := m'\<rparr>)"
    unfolding call_body_def visit.simps handle_assignment_def r
    by (simp add: ebind_def e l c o
          del: evaluate_rhs.simps etch.simps evaluate_lhs.simps)
  with k show ?thesis by simp
qed


theorem evaluate_rhs_width_witness:
  "well_typed call_decls (stmt_ok call_decls (\<lambda>_. True)) call_example \<and>
   wires_ok call_decls call_module \<and> args_ok call_decls None \<and>
   run_ok call_decls (stmt_ok call_decls (\<lambda>_. True)) (evaluate_function no_calls) \<and>
   evaluate_rhs (evaluate_function no_calls) None call_example call_module
     \<noteq> Inl WidthAssertionFailed \<and>
   (\<exists>sig m'. evaluate_rhs (evaluate_function no_calls) None call_example call_module
                 = Inr (sig, m') \<and> length sig = 2)"
proof -
  let ?run = "evaluate_function no_calls"
  let ?good = "stmt_ok call_decls (\<lambda>_. True)"
  let ?a = "wire_sig 7 2"
  let ?m1 = "call_module\<lparr>autoidx := 31\<rparr>"
  have wt: "well_typed call_decls ?good call_example"
    by (simp add: call_example_def call_body_def call_decls_def const_ok_def logic_type_def
          variable_def formal_def type_of_def)
  have w: "wires_ok call_decls call_module"
    by (simp add: wires_ok_def call_module_def call_decls_def)
  have a: "args_ok call_decls None"
    by (simp add: args_ok_def)
  have r: "run_ok call_decls ?good ?run"
    by (rule evaluate_function_ok) (rule no_calls_ok)
  have body: "?good call_body"
    using wt by (simp add: call_example_def)
  have args: "evaluate_rhs_list ?run None
                [NamedValue \<lparr>expr_type = logic_type 2, expr_constant = None\<rparr> (variable 7 2)]
                (call_module\<lparr>autoidx := Suc (autoidx call_module)\<rparr>)
              = Inr ([?a], ?m1)"
    by (simp add: call_module_def const_or_def done_check_def ebind_def named_value_def
          wire_def type_of_def logic_type_def variable_def length_wire_sig)
  let ?v0 = "ProceduralVisitor_init ?m1 (new_process 30) FUNCTION"
  let ?v1 = "?v0\<lparr>ctx := (ctx ?v0)\<lparr>args := [(20, ?a)]\<rparr>\<rparr>"
  have "\<exists>v'. visit no_calls call_body ?v1 = Inr v'"
    by (rule call_body_visit) (simp_all add: ProceduralVisitor_init_simps)
  then obtain v2 where v2: "visit no_calls call_body ?v1 = Inr v2" by blast
  have f: "?run call_body 30 [(20, ?a)] ?m1 = Inr (staging v2, add_process v2)"
    unfolding evaluate_function_def Let_def v2 by (simp add: ebind_def)
  have "wires_ok call_decls ?m1" using w by simp
  moreover have "bound_ok call_decls [(20, ?a)]"
    by (simp add: bound_ok_def call_decls_def length_wire_sig)
  ultimately have "safe (?run call_body 30 [(20, ?a)] ?m1) (\<lambda>(stg, m'). wires_ok call_decls m')"
    using r body by (simp add: run_ok_def)
  then have "wires_ok call_decls (add_process v2)"
    by (simp add: f)
  then have w21: "wire (add_process v2) 21 = Some (wire_sig 21 2)"
    by (simp add: wires_ok_iff wire_def call_decls_def)
  have ai: "autoidx call_module = 30" by (simp add: call_module_def)
  have e: "evaluate_rhs ?run None call_example call_module
             = Inr (replace (staging v2) (wire_sig 21 2), add_process v2)"
    unfolding call_example_def evaluate_rhs.simps args
    by (simp add: const_or_def ebind_def ai f w21 del: evaluate_rhs_list.simps)
  have t: "bitstreamWidth (type_of call_example) = 2"
    by (simp add: call_example_def type_of_def logic_type_def)
  from evaluate_rhs_width [OF wt w a r] e t
  have "length (replace (staging v2) (wire_sig 21 2)) = 2" by simp
  with evaluate_rhs_width [OF wt w a r] wt w a r e show ?thesis by simp
qed

subsection \<open>The switch builder from construction to finish\<close>







text \<open>
  The handler of a conditional statement is such a run: the construction, one branch
  for the true side and one for the other side if there is one, then \<open>finish\<close>.
\<close>

lemma conditional_branches:
  "visit run (ConditionalStatement [(cond, False)] ifTrue ifFalse) v =
     ebind (evaluate_rhs run (Some (ctx v)) cond (module v))
       (\<lambda>(c, m1).
          let (condition, m2) = unary_cell ''$reduce_bool'' c False 1 m1;
              (b, v1) = SwitchBuilder_init (current_case v) condition (v\<lparr>module := m2\<rparr>)
          in ebind (branches b
                      (([[Bit S1]], \<lambda>rule vv. visit run ifTrue (vv\<lparr>current_case := rule\<rparr>))
                       # (case ifFalse of None \<Rightarrow> []
                          | Some stmt \<Rightarrow>
                              [([], \<lambda>rule vv. visit run stmt (vv\<lparr>current_case := rule\<rparr>))]))
                      v1)
               (\<lambda>(b2, v3). Inr (descend (current_case v) (finish b2 v3))))"
  by (cases ifFalse)
     (auto simp: Let_def ebind_def case_prod_beta split: sum.splits intro!: arg_cong)

subsection \<open>Assignments and the pools\<close>


























end
